theory Spec2Isabelle
  imports Complex_Main
begin

section \<open>Informed RRT* planner: the model\<close>

text \<open>
  A shallow embedding of \<^verbatim>\<open>PathPlanning/InformedRRTStar/informed_rrt_star.py\<close>.
  Python floats are modelled as mathematical reals (\<^typ>\<open>real\<close>); \<^verbatim>\<open>float('inf')\<close> is a
  value of its own. Exceptions are values of type \<open>error\<close>. The random module is an explicit
  argument: every loop iteration receives one record of raw draws. The plotting code
  (\<^verbatim>\<open>draw_graph\<close>, \<^verbatim>\<open>plot_ellipse\<close>) is outside the model: the search is the one with
  \<^verbatim>\<open>animation=False\<close>.
\<close>

subsection \<open>Python values\<close>

datatype error = ZeroDivisionError | ValueError | IndexError

text \<open>A float that may be \<^verbatim>\<open>float('inf')\<close>, with Python's \<^verbatim>\<open><\<close> on it.\<close>

datatype pyfloat = Fin real | PosInf

fun fless :: "pyfloat \<Rightarrow> pyfloat \<Rightarrow> bool" where
  "fless (Fin a) (Fin b) = (a < b)"
| "fless (Fin a) PosInf = True"
| "fless PosInf b = False"

text \<open>\<^verbatim>\<open>min(m, *vs)\<close>: the running minimum, replaced only by a strictly smaller element.\<close>

fun py_min :: "pyfloat \<Rightarrow> pyfloat list \<Rightarrow> pyfloat" where
  "py_min m [] = m"
| "py_min m (v # vs) = py_min (if fless v m then v else m) vs"

text \<open>\<^verbatim>\<open>xs.index(v)\<close>: the first position of \<open>v\<close>. Every call site looks up an element
  of the list itself, so the \<^verbatim>\<open>ValueError\<close> of a missing element cannot arise; on a missing
  element the model returns the length.\<close>

fun list_index :: "'a list \<Rightarrow> 'a \<Rightarrow> nat" where
  "list_index [] v = 0"
| "list_index (a # as) v = (if a = v then 0 else Suc (list_index as v))"

text \<open>\<^verbatim>\<open>int(t)\<close> on a float truncates towards zero.\<close>

definition py_int :: "real \<Rightarrow> int" where
  "py_int t = (if 0 \<le> t then \<lfloor>t\<rfloor> else \<lceil>t\<rceil>)"

text \<open>\<^verbatim>\<open>math.atan2(b, a)\<close>, the angle of the point \<open>(a, b)\<close>; \<^verbatim>\<open>atan2(0, 0)\<close> is 0.\<close>

definition atan2 :: "real \<Rightarrow> real \<Rightarrow> real" where
  "atan2 b a =
     (if 0 < a then arctan (b / a)
      else if a < 0 \<and> 0 \<le> b then arctan (b / a) + pi
      else if a < 0 \<and> b < 0 then arctan (b / a) - pi
      else if 0 < b then pi / 2
      else if b < 0 then - (pi / 2)
      else 0)"

text \<open>\<^verbatim>\<open>random.uniform(lo, hi)\<close> is \<^verbatim>\<open>lo + (hi - lo) * random()\<close>; \<open>u\<close> is the raw draw.\<close>

definition uniform :: "real \<Rightarrow> real \<Rightarrow> real \<Rightarrow> real" where
  "uniform lo hi u = lo + (hi - lo) * u"

subsection \<open>Nodes and the planner object\<close>

record Node =
  node_x :: real
  node_y :: real
  cost :: real
  parent :: "nat option"

definition Node_init :: "real \<Rightarrow> real \<Rightarrow> Node" where
  "Node_init a b = \<lparr>node_x = a, node_y = b, cost = 0, parent = None\<rparr>"

text \<open>The fields of \<^verbatim>\<open>InformedRRTStar\<close> set by \<^verbatim>\<open>__init__\<close>. The field \<^verbatim>\<open>node_list\<close>, the
  only one that changes during a search, is passed to the functions below as an argument
  of its own.\<close>

record InformedRRTStar =
  start :: Node
  goal :: Node
  min_rand :: real
  max_rand :: real
  expand_dis :: real
  goal_sample_rate :: int
  max_iter :: nat
  obstacle_list :: "(real \<times> real \<times> real) list"


text \<open>The planner that \<^verbatim>\<open>__init__\<close> returns.\<close>

definition planner ::
  "real \<times> real \<Rightarrow> real \<times> real \<Rightarrow> (real \<times> real \<times> real) list \<Rightarrow> real \<times> real \<Rightarrow>
   real \<Rightarrow> int \<Rightarrow> nat \<Rightarrow> InformedRRTStar" where
  "planner startp goalp obstacleList randArea expandDis goalSampleRate maxIter =
     \<lparr>start = Node_init (fst startp) (snd startp),
      goal = Node_init (fst goalp) (snd goalp),
      min_rand = fst randArea,
      max_rand = snd randArea,
      expand_dis = expandDis,
      goal_sample_rate = goalSampleRate,
      max_iter = maxIter,
      obstacle_list = obstacleList\<rparr>"

subsection \<open>Geometry and collision tests\<close>

definition line_cost :: "Node \<Rightarrow> Node \<Rightarrow> real" where
  "line_cost node1 node2 =
     sqrt ((node_x node1 - node_x node2)\<^sup>2 + (node_y node1 - node_y node2)\<^sup>2)"

fun collision_check :: "Node \<Rightarrow> (real \<times> real \<times> real) list \<Rightarrow> bool" where
  "collision_check newNode [] = True"
| "collision_check newNode ((ox, oy, radius) # obstacleList) =
     (let dx = ox - node_x newNode;
          dy = oy - node_y newNode;
          d = dx * dx + dy * dy
      in if d \<le> 11 / 10 * radius\<^sup>2 then False
         else collision_check newNode obstacleList)"

text \<open>One pass of the loop of \<^verbatim>\<open>check_collision_extend\<close> moves \<open>tmpNode\<close> by one step and
  tests it; \<open>k\<close> is the number of passes still to run.\<close>

definition advance :: "InformedRRTStar \<Rightarrow> real \<Rightarrow> Node \<Rightarrow> Node" where
  "advance P theta tmpNode =
     tmpNode\<lparr>node_x := node_x tmpNode + expand_dis P * cos theta,
             node_y := node_y tmpNode + expand_dis P * sin theta\<rparr>"

fun extend_loop :: "InformedRRTStar \<Rightarrow> real \<Rightarrow> nat \<Rightarrow> Node \<Rightarrow> bool" where
  "extend_loop P theta 0 tmpNode = True"
| "extend_loop P theta (Suc k) tmpNode =
     (if \<not> collision_check (advance P theta tmpNode) (obstacle_list P) then False
      else extend_loop P theta k (advance P theta tmpNode))"

text \<open>\<^verbatim>\<open>range(int(d / self.expand_dis))\<close>: the number of passes; a negative bound gives
  the empty range.\<close>

definition extend_steps :: "InformedRRTStar \<Rightarrow> real \<Rightarrow> nat" where
  "extend_steps P d = nat (py_int (d / expand_dis P))"

definition check_collision_extend ::
  "InformedRRTStar \<Rightarrow> Node \<Rightarrow> real \<Rightarrow> real \<Rightarrow> error + bool" where
  "check_collision_extend P nearNode theta d =
     (if expand_dis P = 0 then Inl ZeroDivisionError
      else Inr (extend_loop P theta (extend_steps P d) nearNode))"

definition get_nearest_list_index :: "Node list \<Rightarrow> real \<times> real \<Rightarrow> error + nat" where
  "get_nearest_list_index nodes rnd =
     (let dList = map (\<lambda>node. (node_x node - fst rnd)\<^sup>2 + (node_y node - snd rnd)\<^sup>2) nodes
      in if dList = [] then Inl ValueError
         else Inr (list_index dList (min_list dList)))"

definition get_new_node :: "InformedRRTStar \<Rightarrow> real \<Rightarrow> nat \<Rightarrow> Node \<Rightarrow> Node" where
  "get_new_node P theta nind nearestNode =
     nearestNode\<lparr>node_x := node_x nearestNode + expand_dis P * cos theta,
                 node_y := node_y nearestNode + expand_dis P * sin theta,
                 cost := cost nearestNode + expand_dis P,
                 parent := Some nind\<rparr>"

definition is_near_goal :: "InformedRRTStar \<Rightarrow> Node \<Rightarrow> bool" where
  "is_near_goal P node = (line_cost node (goal P) < expand_dis P)"

subsection \<open>Near nodes, parent selection, rewiring\<close>

text \<open>\<^verbatim>\<open>math.log(0)\<close> raises \<^verbatim>\<open>ValueError\<close>; the search never calls with an empty tree.\<close>

definition near_radius :: "nat \<Rightarrow> real" where
  "near_radius nnode = 50 * sqrt (ln (real nnode) / real nnode)"

definition find_near_nodes :: "Node list \<Rightarrow> Node \<Rightarrow> error + nat list" where
  "find_near_nodes nodes newNode =
     (let nnode = length nodes
      in if nnode = 0 then Inl ValueError
         else
           let r = near_radius nnode;
               dlist = map (\<lambda>node. (node_x node - node_x newNode)\<^sup>2
                                   + (node_y node - node_y newNode)\<^sup>2) nodes
           in Inr (map (list_index dlist) (filter (\<lambda>i. i \<le> r\<^sup>2) dlist)))"

text \<open>The loop of \<^verbatim>\<open>choose_parent\<close> that fills \<^verbatim>\<open>dList\<close>.\<close>

fun parent_costs ::
  "InformedRRTStar \<Rightarrow> Node list \<Rightarrow> Node \<Rightarrow> nat list \<Rightarrow> error + pyfloat list" where
  "parent_costs P nodes newNode [] = Inr []"
| "parent_costs P nodes newNode (i # nearInds) =
     (if length nodes \<le> i then Inl IndexError
      else
        let dx = node_x newNode - node_x (nodes ! i);
            dy = node_y newNode - node_y (nodes ! i);
            d = sqrt (dx\<^sup>2 + dy\<^sup>2);
            theta = atan2 dy dx
        in case check_collision_extend P (nodes ! i) theta d of
             Inl e \<Rightarrow> Inl e
           | Inr free \<Rightarrow>
               (case parent_costs P nodes newNode nearInds of
                  Inl e \<Rightarrow> Inl e
                | Inr dList \<Rightarrow>
                    Inr ((if free then Fin (cost (nodes ! i) + d) else PosInf) # dList)))"

definition choose_parent ::
  "InformedRRTStar \<Rightarrow> Node list \<Rightarrow> Node \<Rightarrow> nat list \<Rightarrow> error + Node" where
  "choose_parent P nodes newNode nearInds =
     (if nearInds = [] then Inr newNode
      else
        case parent_costs P nodes newNode nearInds of
          Inl e \<Rightarrow> Inl e
        | Inr dList \<Rightarrow>
            (let minCost = py_min (hd dList) (tl dList);
                 minInd = nearInds ! list_index dList minCost
             in case minCost of
                  PosInf \<Rightarrow> Inr newNode
                | Fin c \<Rightarrow> Inr (newNode\<lparr>cost := c, parent := Some minInd\<rparr>)))"

text \<open>The loop of \<^verbatim>\<open>rewire\<close> over \<^verbatim>\<open>nearInds\<close>; \<open>nodes\<close> is \<^verbatim>\<open>self.node_list\<close> with the
  new node already appended, and \<open>n_node\<close> its length at entry. In the search every index
  of \<^verbatim>\<open>nearInds\<close> is below \<open>n_node - 1\<close>, so the loop never writes to the new node.\<close>

fun rewire_loop ::
  "InformedRRTStar \<Rightarrow> Node \<Rightarrow> nat \<Rightarrow> nat list \<Rightarrow> Node list \<Rightarrow> error + Node list" where
  "rewire_loop P newNode n_node [] nodes = Inr nodes"
| "rewire_loop P newNode n_node (i # nearInds) nodes =
     (if length nodes \<le> i then Inl IndexError
      else
        let nearNode = nodes ! i;
            d = sqrt ((node_x nearNode - node_x newNode)\<^sup>2
                      + (node_y nearNode - node_y newNode)\<^sup>2);
            scost = cost newNode + d
        in if scost < cost nearNode then
             (let theta = atan2 (node_y newNode - node_y nearNode)
                                (node_x newNode - node_x nearNode)
              in case check_collision_extend P nearNode theta d of
                   Inl e \<Rightarrow> Inl e
                 | Inr free \<Rightarrow>
                     if free then
                       rewire_loop P newNode n_node nearInds
                         (nodes[i := nearNode\<lparr>parent := Some (n_node - 1), cost := scost\<rparr>])
                     else rewire_loop P newNode n_node nearInds nodes)
           else rewire_loop P newNode n_node nearInds nodes)"

definition rewire ::
  "InformedRRTStar \<Rightarrow> Node list \<Rightarrow> Node \<Rightarrow> nat list \<Rightarrow> error + Node list" where
  "rewire P nodes newNode nearInds = rewire_loop P newNode (length nodes) nearInds nodes"

subsection \<open>Path extraction\<close>

text \<open>The \<^verbatim>\<open>while\<close> loop of \<^verbatim>\<open>get_final_course\<close> follows parent handles for as long as
  there is one; it need not terminate, and \<open>None\<close> is the run that does not.\<close>

partial_function (option) final_course_loop ::
  "Node list \<Rightarrow> nat \<Rightarrow> (real \<times> real) list \<Rightarrow> (error + (real \<times> real) list) option" where
  "final_course_loop nodes lastIndex pth =
     (if length nodes \<le> lastIndex then Some (Inl IndexError)
      else
        case parent (nodes ! lastIndex) of
          None \<Rightarrow> Some (Inr pth)
        | Some p \<Rightarrow>
            final_course_loop nodes p
              (pth @ [(node_x (nodes ! lastIndex), node_y (nodes ! lastIndex))]))"

definition get_final_course ::
  "InformedRRTStar \<Rightarrow> Node list \<Rightarrow> nat \<Rightarrow> (error + (real \<times> real) list) option" where
  "get_final_course P nodes lastIndex =
     (case final_course_loop nodes lastIndex [(node_x (goal P), node_y (goal P))] of
        None \<Rightarrow> None
      | Some (Inl e) \<Rightarrow> Some (Inl e)
      | Some (Inr pth) \<Rightarrow> Some (Inr (pth @ [(node_x (start P), node_y (start P))])))"

text \<open>\<^verbatim>\<open>get_path_len\<close>: \<open>prev\<close> is \<^verbatim>\<open>path[i - 1]\<close>, the list the points from \<^verbatim>\<open>path[i]\<close> on.\<close>

fun path_len_loop :: "real \<Rightarrow> real \<times> real \<Rightarrow> (real \<times> real) list \<Rightarrow> real" where
  "path_len_loop pathLen prev [] = pathLen"
| "path_len_loop pathLen prev (pt # pts) =
     path_len_loop (pathLen + sqrt ((fst pt - fst prev)\<^sup>2 + (snd pt - snd prev)\<^sup>2)) pt pts"

definition get_path_len :: "(real \<times> real) list \<Rightarrow> real" where
  "get_path_len pth = (case pth of [] \<Rightarrow> 0 | p0 # pts \<Rightarrow> path_len_loop 0 p0 pts)"

subsection \<open>Sampling\<close>

text \<open>The raw random draws of one iteration: the result of \<^verbatim>\<open>random.randint(0, 100)\<close>,
  the two \<^verbatim>\<open>random()\<close> values behind the two \<^verbatim>\<open>random.uniform\<close> calls, and the two
  \<^verbatim>\<open>random()\<close> values of \<^verbatim>\<open>sample_unit_ball\<close>.\<close>

record draw =
  randint :: int
  uniform_x :: real
  uniform_y :: real
  ball_a :: real
  ball_b :: real

definition sample_free_space :: "InformedRRTStar \<Rightarrow> draw \<Rightarrow> real \<times> real" where
  "sample_free_space P dr =
     (if goal_sample_rate P < randint dr
      then (uniform (min_rand P) (max_rand P) (uniform_x dr),
            uniform (min_rand P) (max_rand P) (uniform_y dr))
      else (node_x (goal P), node_y (goal P)))"

definition sample_unit_ball :: "draw \<Rightarrow> error + real \<times> real" where
  "sample_unit_ball dr =
     (let a = (if ball_b dr < ball_a dr then ball_b dr else ball_a dr);
          b = (if ball_b dr < ball_a dr then ball_a dr else ball_b dr)
      in if b = 0 then Inl ZeroDivisionError
         else Inr (b * cos (2 * pi * a / b), b * sin (2 * pi * a / b)))"

text \<open>The rotation \<open>C\<close> comes out of \<^verbatim>\<open>numpy.linalg.svd\<close>, which is not part of the
  repository. Of the product \<^verbatim>\<open>C L xBall\<close> only the upper left 2 by 2 block of \<open>C\<close> is
  read; it is the argument \<open>C = ((c00, c01), (c10, c11))\<close>.\<close>

type_synonym rotation = "(real \<times> real) \<times> (real \<times> real)"

definition informed_sample ::
  "InformedRRTStar \<Rightarrow> pyfloat \<Rightarrow> real \<Rightarrow> real \<times> real \<Rightarrow> rotation \<Rightarrow> draw \<Rightarrow>
   error + real \<times> real" where
  "informed_sample P cMax cMin xCenter C dr =
     (case cMax of
        Fin c \<Rightarrow>
          if c\<^sup>2 - cMin\<^sup>2 < 0 then Inl ValueError
          else
            (let r1 = c / 2;
                 r2 = sqrt (c\<^sup>2 - cMin\<^sup>2) / 2
             in case sample_unit_ball dr of
                  Inl e \<Rightarrow> Inl e
                | Inr xBall \<Rightarrow>
                    Inr (fst (fst C) * r1 * fst xBall + snd (fst C) * r2 * snd xBall
                           + fst xCenter,
                         fst (snd C) * r1 * fst xBall + snd (snd C) * r2 * snd xBall
                           + snd xCenter))
      | PosInf \<Rightarrow> Inr (sample_free_space P dr))"

subsection \<open>The search\<close>

text \<open>The local variables of \<^verbatim>\<open>informed_rrt_star_search\<close> that the loop reads or
  writes, with \<^verbatim>\<open>self.node_list\<close>. The source assigns \<^verbatim>\<open>pathLen\<close> once, before the loop.\<close>

record search_state =
  node_list :: "Node list"
  cBest :: pyfloat
  pathLen :: pyfloat
  path :: "(real \<times> real) list option"

text \<open>Lines 70 to 82 of the loop body: nearest node, steering, the two collision tests,
  near nodes and parent selection. The result \<open>None\<close> is a sample that the collision
  tests reject.\<close>

definition extend_tree ::
  "InformedRRTStar \<Rightarrow> Node list \<Rightarrow> real \<times> real \<Rightarrow> error + (Node \<times> nat list) option" where
  "extend_tree P nodes rnd =
     (case get_nearest_list_index nodes rnd of
        Inl e \<Rightarrow> Inl e
      | Inr nind \<Rightarrow>
          (let nearestNode = nodes ! nind;
               theta = atan2 (snd rnd - node_y nearestNode) (fst rnd - node_x nearestNode);
               newNode = get_new_node P theta nind nearestNode;
               d = line_cost nearestNode newNode;
               isCollision = collision_check newNode (obstacle_list P)
           in case check_collision_extend P nearestNode theta d of
                Inl e \<Rightarrow> Inl e
              | Inr isCollisionEx \<Rightarrow>
                  if isCollision \<and> isCollisionEx then
                    (case find_near_nodes nodes newNode of
                       Inl e \<Rightarrow> Inl e
                     | Inr nearInds \<Rightarrow>
                         (case choose_parent P nodes newNode nearInds of
                            Inl e \<Rightarrow> Inl e
                          | Inr chosen \<Rightarrow> Inr (Some (chosen, nearInds))))
                  else Inr None))"

text \<open>Lines 87 to 94: the goal test and the update of the best path.\<close>

definition check_goal ::
  "InformedRRTStar \<Rightarrow> search_state \<Rightarrow> Node \<Rightarrow> (error + search_state) option" where
  "check_goal P st newNode =
     (if is_near_goal P newNode then
        (let lastIndex = length (node_list st) - 1
         in case get_final_course P (node_list st) lastIndex of
              None \<Rightarrow> None
            | Some (Inl e) \<Rightarrow> Some (Inl e)
            | Some (Inr tempPath) \<Rightarrow>
                (let tempPathLen = get_path_len tempPath
                 in if fless (Fin tempPathLen) (pathLen st)
                    then Some (Inr (st\<lparr>path := Some tempPath, cBest := Fin tempPathLen\<rparr>))
                    else Some (Inr st)))
      else Some (Inr st))"

text \<open>One pass of the main loop.\<close>

definition iteration ::
  "InformedRRTStar \<Rightarrow> real \<Rightarrow> real \<times> real \<Rightarrow> rotation \<Rightarrow> search_state \<Rightarrow> draw \<Rightarrow>
   (error + search_state) option" where
  "iteration P cMin xCenter C st dr =
     (case informed_sample P (cBest st) cMin xCenter C dr of
        Inl e \<Rightarrow> Some (Inl e)
      | Inr rnd \<Rightarrow>
          (case extend_tree P (node_list st) rnd of
             Inl e \<Rightarrow> Some (Inl e)
           | Inr None \<Rightarrow> Some (Inr st)
           | Inr (Some (newNode, nearInds)) \<Rightarrow>
               (case rewire P (node_list st @ [newNode]) newNode nearInds of
                  Inl e \<Rightarrow> Some (Inl e)
                | Inr nodes \<Rightarrow> check_goal P (st\<lparr>node_list := nodes\<rparr>) newNode)))"

fun search_loop ::
  "InformedRRTStar \<Rightarrow> real \<Rightarrow> real \<times> real \<Rightarrow> rotation \<Rightarrow> draw list \<Rightarrow> search_state \<Rightarrow>
   (error + search_state) option" where
  "search_loop P cMin xCenter C [] st = Some (Inr st)"
| "search_loop P cMin xCenter C (dr # drs) st =
     (case iteration P cMin xCenter C st dr of
        None \<Rightarrow> None
      | Some (Inl e) \<Rightarrow> Some (Inl e)
      | Some (Inr st') \<Rightarrow> search_loop P cMin xCenter C drs st')"

definition initial_state :: "InformedRRTStar \<Rightarrow> search_state" where
  "initial_state P = \<lparr>node_list = [start P], cBest = PosInf, pathLen = PosInf, path = None\<rparr>"

definition cMin_of :: "InformedRRTStar \<Rightarrow> real" where
  "cMin_of P = sqrt ((node_x (start P) - node_x (goal P))\<^sup>2
                     + (node_y (start P) - node_y (goal P))\<^sup>2)"

definition xCenter_of :: "InformedRRTStar \<Rightarrow> real \<times> real" where
  "xCenter_of P = ((node_x (start P) + node_x (goal P)) / 2,
                   (node_y (start P) + node_y (goal P)) / 2)"

text \<open>The search up to the end of the loop, returning the whole state. The first column
  of \<open>C\<close> is the unit vector \<open>a1\<close> from start to goal: \<open>M = a1 e1\<^sup>T\<close> has the one singular
  value 1, so any singular value decomposition \<open>U S V\<^sup>T\<close> of it has \<open>U e1 = s a1\<close> and
  \<open>V e1 = s e1\<close> with the same sign \<open>s\<close>, and \<open>C e1 = a1\<close>. The second column is what numpy
  chooses; it is the argument \<open>c2\<close>. The draws of iteration \<open>i\<close> are \<open>rng i\<close>.\<close>

definition search_run ::
  "InformedRRTStar \<Rightarrow> real \<times> real \<Rightarrow> (nat \<Rightarrow> draw) \<Rightarrow> nat \<Rightarrow> (error + search_state) option" where
  "search_run P c2 rng iters =
     (let cMin = cMin_of P;
          xCenter = xCenter_of P
      in if cMin = 0 then Some (Inl ZeroDivisionError)
         else
           let a1 = ((node_x (goal P) - node_x (start P)) / cMin,
                     (node_y (goal P) - node_y (start P)) / cMin);
               C = ((fst a1, fst c2), (snd a1, snd c2))
           in search_loop P cMin xCenter C (map rng [0..<iters]) (initial_state P))"

definition informed_rrt_star_search ::
  "InformedRRTStar \<Rightarrow> real \<times> real \<Rightarrow> (nat \<Rightarrow> draw) \<Rightarrow>
   (error + (real \<times> real) list option) option" where
  "informed_rrt_star_search P c2 rng =
     (case search_run P c2 rng (max_iter P) of
        None \<Rightarrow> None
      | Some (Inl e) \<Rightarrow> Some (Inl e)
      | Some (Inr st) \<Rightarrow> Some (Inr (path st)))"

section \<open>Notions used to state the properties\<close>

subsection \<open>The trees of a run\<close>

text \<open>The values that \<^verbatim>\<open>self.node_list\<close> takes during a search: the list with the start
  node alone, and, for a tree already reached and a sample \<open>rnd\<close> that passes the collision
  tests, the tree with the new node appended and the first \<open>j\<close> passes of the loop of
  \<^verbatim>\<open>rewire\<close> done (\<open>j = 0\<close> is the tree just after \<^verbatim>\<open>append\<close>). The sample is arbitrary, so
  both modes of the sampler are covered.\<close>

inductive reachable :: "InformedRRTStar \<Rightarrow> Node list \<Rightarrow> bool" for P where
  reach_init: "reachable P [start P]"
| reach_rewire:
    "reachable P nodes \<Longrightarrow>
     extend_tree P nodes rnd = Inr (Some (newNode, nearInds)) \<Longrightarrow>
     rewire_loop P newNode (Suc (length nodes)) (take j nearInds) (nodes @ [newNode])
       = Inr nodes' \<Longrightarrow>
     reachable P nodes'"

text \<open>Node 0 alone has no parent; every other parent handle is an index of the tree and
  not the node's own.\<close>

definition valid_parents :: "Node list \<Rightarrow> bool" where
  "valid_parents nodes =
     (nodes \<noteq> [] \<and> parent (nodes ! 0) = None \<and>
      (\<forall>i. 0 < i \<and> i < length nodes \<longrightarrow>
           (\<exists>p. parent (nodes ! i) = Some p \<and> p < length nodes \<and> p \<noteq> i)))"

text \<open>The cost of a node is at least the cost of its parent plus the length of the edge.\<close>

definition cost_bounded :: "Node list \<Rightarrow> bool" where
  "cost_bounded nodes =
     (\<forall>i p. i < length nodes \<and> parent (nodes ! i) = Some p \<longrightarrow>
            cost (nodes ! p) + line_cost (nodes ! i) (nodes ! p) \<le> cost (nodes ! i))"

text \<open>The chain of parent handles from node \<open>i\<close> ends at a node without parent.\<close>

inductive rooted :: "Node list \<Rightarrow> nat \<Rightarrow> bool" for nodes where
  rooted_root: "i < length nodes \<Longrightarrow> parent (nodes ! i) = None \<Longrightarrow> rooted nodes i"
| rooted_step: "i < length nodes \<Longrightarrow> parent (nodes ! i) = Some p \<Longrightarrow> rooted nodes p \<Longrightarrow>
                rooted nodes i"

definition tree_inv :: "Node list \<Rightarrow> bool" where
  "tree_inv nodes =
     (valid_parents nodes \<and> cost_bounded nodes \<and> (\<forall>i<length nodes. rooted nodes i))"

text \<open>Every parent handle is an index of the tree and not the node's own.\<close>

definition parents_in_range :: "Node list \<Rightarrow> bool" where
  "parents_in_range nodes =
     (\<forall>i p. i < length nodes \<and> parent (nodes ! i) = Some p \<longrightarrow> p < length nodes \<and> p \<noteq> i)"

text \<open>Follow parent handles from node \<open>i\<close> for at most \<open>fuel\<close> hops: the result is the node
  without parent that the chain reaches and the number of hops to it, or \<open>None\<close> when the
  chain is longer than the fuel or leaves the tree.\<close>

fun follow_parents :: "Node list \<Rightarrow> nat \<Rightarrow> nat \<Rightarrow> (nat \<times> nat) option" where
  "follow_parents nodes 0 i =
     (if length nodes \<le> i then None
      else case parent (nodes ! i) of None \<Rightarrow> Some (i, 0) | Some p \<Rightarrow> None)"
| "follow_parents nodes (Suc fuel) i =
     (if length nodes \<le> i then None
      else case parent (nodes ! i) of
             None \<Rightarrow> Some (i, 0)
           | Some p \<Rightarrow>
               (case follow_parents nodes fuel p of
                  None \<Rightarrow> None
                | Some (r, k) \<Rightarrow> Some (r, Suc k)))"

subsection \<open>Paths and the state of the search\<close>

definition point_dist :: "real \<times> real \<Rightarrow> real \<times> real \<Rightarrow> real" where
  "point_dist p q = sqrt ((fst p - fst q)\<^sup>2 + (snd p - snd q)\<^sup>2)"

text \<open>Every two consecutive points of the path are at most \<open>e\<close> apart.\<close>

fun steps_within :: "real \<Rightarrow> (real \<times> real) list \<Rightarrow> bool" where
  "steps_within e (p # q # rest) = (point_dist p q \<le> e \<and> steps_within e (q # rest))"
| "steps_within e [p] = True"
| "steps_within e [] = True"

definition goal_point :: "InformedRRTStar \<Rightarrow> real \<times> real" where
  "goal_point P = (node_x (goal P), node_y (goal P))"

definition start_point :: "InformedRRTStar \<Rightarrow> real \<times> real" where
  "start_point P = (node_x (start P), node_y (start P))"

text \<open>The shape of a recorded path: the goal, then the node that reached it, less than
  a step away, and so on to the start.\<close>

definition good_path :: "InformedRRTStar \<Rightarrow> (real \<times> real) list \<Rightarrow> bool" where
  "good_path P pth =
     (3 \<le> length pth \<and> hd pth = goal_point P \<and> last pth = start_point P \<and>
      point_dist (pth ! 0) (pth ! 1) < expand_dis P)"

text \<open>What the loop keeps true of its variables: \<^verbatim>\<open>pathLen\<close> is infinite, and \<^verbatim>\<open>cBest\<close> is
  infinite until a path is recorded and the length of the recorded path from then on.\<close>

definition state_inv :: "InformedRRTStar \<Rightarrow> search_state \<Rightarrow> bool" where
  "state_inv P st =
     (pathLen st = PosInf \<and>
      (case path st of
         None \<Rightarrow> cBest st = PosInf
       | Some pth \<Rightarrow> cBest st = Fin (get_path_len pth) \<and> good_path P pth))"

text \<open>The position of node \<open>i\<close>.\<close>

definition node_point :: "Node list \<Rightarrow> nat \<Rightarrow> real \<times> real" where
  "node_point nodes i = (node_x (nodes ! i), node_y (nodes ! i))"

text \<open>The indices that \<^verbatim>\<open>get_final_course\<close> visits from node \<open>i\<close>: the node, its parent, and
  so on to the node without parent, in at most \<open>fuel\<close> hops; \<open>None\<close> when the chain is longer
  than the fuel or leaves the tree.\<close>

fun parent_chain :: "Node list \<Rightarrow> nat \<Rightarrow> nat \<Rightarrow> nat list option" where
  "parent_chain nodes 0 i =
     (if length nodes \<le> i then None
      else case parent (nodes ! i) of None \<Rightarrow> Some [i] | Some p \<Rightarrow> None)"
| "parent_chain nodes (Suc fuel) i =
     (if length nodes \<le> i then None
      else case parent (nodes ! i) of
             None \<Rightarrow> Some [i]
           | Some p \<Rightarrow>
               (case parent_chain nodes fuel p of
                  None \<Rightarrow> None
                | Some chain \<Rightarrow> Some (i # chain)))"

text \<open>The path \<open>pth\<close> is the one that \<^verbatim>\<open>get_final_course\<close> lists from the last node of the
  tree \<open>nodes\<close>, a node near the goal: the goal position, then the positions of the last
  node, of its parent, and so on along the parent handles to node 0, which lies at the
  start position.\<close>

definition follows_parents :: "InformedRRTStar \<Rightarrow> Node list \<Rightarrow> (real \<times> real) list \<Rightarrow> bool" where
  "follows_parents P nodes pth =
     (nodes \<noteq> [] \<and> is_near_goal P (last nodes) \<and> node_point nodes 0 = start_point P \<and>
      (case parent_chain nodes (length nodes) (length nodes - 1) of
         None \<Rightarrow> False
       | Some chain \<Rightarrow>
           2 \<le> length chain \<and> last chain = 0 \<and>
           pth = goal_point P # map (node_point nodes) chain))"

text \<open>A recorded path was listed from a tree of the run.\<close>

definition path_inv :: "InformedRRTStar \<Rightarrow> search_state \<Rightarrow> bool" where
  "path_inv P st =
     (case path st of
        None \<Rightarrow> True
      | Some pth \<Rightarrow> \<exists>nodes. reachable P nodes \<and> follows_parents P nodes pth)"

text \<open>Only node 0 can be without parent, and it stays at the start position.\<close>

definition root_inv :: "InformedRRTStar \<Rightarrow> Node list \<Rightarrow> bool" where
  "root_inv P nodes =
     (nodes \<noteq> [] \<and> node_point nodes 0 = start_point P \<and>
      (\<forall>i. i < length nodes \<and> parent (nodes ! i) = None \<longrightarrow> i = 0))"

subsection \<open>The segment test\<close>


text \<open>The number of calls of \<^verbatim>\<open>collision_check\<close> that the loop of
  \<^verbatim>\<open>check_collision_extend\<close> makes: \<open>extend_loop\<close> with a counter.\<close>

fun extend_tests :: "InformedRRTStar \<Rightarrow> real \<Rightarrow> nat \<Rightarrow> Node \<Rightarrow> nat" where
  "extend_tests P theta 0 tmpNode = 0"
| "extend_tests P theta (Suc k) tmpNode =
     (if \<not> collision_check (advance P theta tmpNode) (obstacle_list P) then 1
      else Suc (extend_tests P theta k (advance P theta tmpNode)))"

subsection \<open>The goal bias\<close>

text \<open>\<^verbatim>\<open>random.randint(0, 100)\<close> returns each integer from 0 to 100, both included, with
  the same probability. The uniform branch of \<^verbatim>\<open>sample_free_space\<close> is taken on the
  outcomes above the goal sample rate.\<close>

definition randint_outcomes :: "int list" where
  "randint_outcomes = [0..100]"

definition uniform_branch :: "InformedRRTStar \<Rightarrow> int \<Rightarrow> bool" where
  "uniform_branch P k = (goal_sample_rate P < k)"

subsection \<open>The planner of the entry point\<close>

text \<open>The planner that \<^verbatim>\<open>main()\<close> builds, with the default step length, goal sample rate
  and iteration budget.\<close>

definition main_planner :: InformedRRTStar where
  "main_planner =
     planner (0, 0) (5, 10)
       [(5, 5, 1 / 2), (9, 6, 1), (7, 5, 1), (1, 5, 1), (3, 6, 1), (7, 9, 1)]
       (- 2, 15) (1 / 2) 10 200"

subsection \<open>A tree with two nodes at the same distance from a new node\<close>

text \<open>With step length 1 and samples to the right of, to the left of and above the start
  \<open>(0, 0)\<close>, the search grows the tree \<open>tie_nodes\<close> and then steers to \<open>tie_new\<close>.\<close>

definition tie_nodes :: "Node list" where
  "tie_nodes = [Node_init 0 0,
                \<lparr>node_x = 1, node_y = 0, cost = 1, parent = Some 0\<rparr>,
                \<lparr>node_x = - 1, node_y = 0, cost = 1, parent = Some 0\<rparr>]"

definition tie_new :: Node where
  "tie_new = \<lparr>node_x = 0, node_y = 1, cost = 1, parent = Some 0\<rparr>"

subsection \<open>A run that reaches the goal twice\<close>

text \<open>Start \<open>(0, 0)\<close>, goal \<open>(3/2, 0)\<close>, step length 1, no obstacles, two iterations. The
  first draw is \<^verbatim>\<open>randint\<close> 0, which samples the goal; the second is the pair \<open>a = 0\<close>,
  \<open>b = 1/2\<close> of \<^verbatim>\<open>sample_unit_ball\<close>. The nodes and states below are the ones the search
  goes through; \<open>short_steered2\<close> is the second new node before parent selection.\<close>

definition short_planner :: InformedRRTStar where
  "short_planner = planner (0, 0) (3 / 2, 0) [] (- 2, 15) 1 10 2"

definition short_draws :: "nat \<Rightarrow> draw" where
  "short_draws i =
     (if i = 0 then \<lparr>randint = 0, uniform_x = 0, uniform_y = 0, ball_a = 0, ball_b = 0\<rparr>
      else \<lparr>randint = 0, uniform_x = 0, uniform_y = 0, ball_a = 0, ball_b = 1 / 2\<rparr>)"

definition short_node1 :: Node where
  "short_node1 = \<lparr>node_x = 1, node_y = 0, cost = 1, parent = Some 0\<rparr>"

definition short_node2 :: Node where
  "short_node2 = \<lparr>node_x = 2, node_y = 0, cost = 2, parent = Some 0\<rparr>"

definition short_state1 :: search_state where
  "short_state1 = \<lparr>node_list = [Node_init 0 0, short_node1], cBest = Fin (3 / 2),
                    pathLen = PosInf, path = Some [(3 / 2, 0), (1, 0), (0, 0)]\<rparr>"

definition short_state2 :: search_state where
  "short_state2 = \<lparr>node_list = [Node_init 0 0, short_node1, short_node2], cBest = Fin (5 / 2),
                    pathLen = PosInf, path = Some [(3 / 2, 0), (2, 0), (0, 0)]\<rparr>"

definition short_steered2 :: Node where
  "short_steered2 = \<lparr>node_x = 2, node_y = 0, cost = 2, parent = Some (Suc 0)\<rparr>"

subsection \<open>A run that rewires a node with a child\<close>

text \<open>Start \<open>(0, 0)\<close>, goal \<open>(100, 100)\<close>, step length 20, no obstacles, sampling bounds 0 and
  100, four iterations. Every draw of \<^verbatim>\<open>randint\<close> is 100, so every sample is uniform: the
  samples are \<open>(1, 0)\<close>, \<open>(23, 4)\<close>, \<open>(33, 16)\<close> and \<open>(4, 3)\<close>. The nodes and states below are
  the ones the search goes through; \<open>long_rewired2\<close> is node 2 after the fourth iteration
  has rewired it.\<close>

definition long_planner :: InformedRRTStar where
  "long_planner = planner (0, 0) (100, 100) [] (0, 100) 20 10 4"

definition long_draw :: "real \<Rightarrow> real \<Rightarrow> draw" where
  "long_draw ux uy = \<lparr>randint = 100, uniform_x = ux, uniform_y = uy, ball_a = 0, ball_b = 0\<rparr>"

definition long_draws :: "nat \<Rightarrow> draw" where
  "long_draws i =
     (if i = 0 then long_draw (1 / 100) 0
      else if i = 1 then long_draw (23 / 100) (1 / 25)
      else if i = 2 then long_draw (33 / 100) (4 / 25)
      else long_draw (1 / 25) (3 / 100))"

definition long_node1 :: Node where
  "long_node1 = \<lparr>node_x = 20, node_y = 0, cost = 20, parent = Some 0\<rparr>"

definition long_node2 :: Node where
  "long_node2 = \<lparr>node_x = 32, node_y = 16, cost = 40, parent = Some 1\<rparr>"

definition long_node3 :: Node where
  "long_node3 = \<lparr>node_x = 52, node_y = 16, cost = 60, parent = Some 2\<rparr>"

definition long_node4 :: Node where
  "long_node4 = \<lparr>node_x = 16, node_y = 12, cost = 20, parent = Some 0\<rparr>"

definition long_rewired2 :: Node where
  "long_rewired2 = \<lparr>node_x = 32, node_y = 16, cost = 20 + sqrt 272, parent = Some 4\<rparr>"

definition long_tree1 :: "Node list" where
  "long_tree1 = [Node_init 0 0, long_node1]"

definition long_tree2 :: "Node list" where
  "long_tree2 = [Node_init 0 0, long_node1, long_node2]"

definition long_tree3 :: "Node list" where
  "long_tree3 = [Node_init 0 0, long_node1, long_node2, long_node3]"

definition long_tree4 :: "Node list" where
  "long_tree4 = [Node_init 0 0, long_node1, long_rewired2, long_node3, long_node4]"

definition long_state :: "Node list \<Rightarrow> search_state" where
  "long_state nodes = \<lparr>node_list = nodes, cBest = PosInf, pathLen = PosInf, path = None\<rparr>"

subsection \<open>A run in which parent selection takes a longer edge\<close>

text \<open>Start \<open>(0, 0)\<close>, goal \<open>(1, 3/2)\<close>, step length 1, no obstacles, sampling bounds \<open>-2\<close> and
  15, two iterations. Both draws of \<^verbatim>\<open>randint\<close> are 100, so both samples are uniform: they
  are \<open>(1, 0)\<close> and \<open>(1, 5)\<close>. The second new node is steered from node 1 to \<open>(1, 1)\<close>
  (\<open>shortcut_steered2\<close>); parent selection then connects it to node 0, which is cheaper
  and \<open>sqrt 2\<close> away. It is the first node near the goal.\<close>

definition shortcut_planner :: InformedRRTStar where
  "shortcut_planner = planner (0, 0) (1, 3 / 2) [] (- 2, 15) 1 10 2"

definition shortcut_draws :: "nat \<Rightarrow> draw" where
  "shortcut_draws i =
     (if i = 0 then long_draw (3 / 17) (2 / 17) else long_draw (3 / 17) (7 / 17))"

definition shortcut_node1 :: Node where
  "shortcut_node1 = \<lparr>node_x = 1, node_y = 0, cost = 1, parent = Some 0\<rparr>"

definition shortcut_steered2 :: Node where
  "shortcut_steered2 = \<lparr>node_x = 1, node_y = 1, cost = 2, parent = Some 1\<rparr>"

definition shortcut_node2 :: Node where
  "shortcut_node2 = \<lparr>node_x = 1, node_y = 1, cost = sqrt 2, parent = Some 0\<rparr>"

definition shortcut_tree1 :: "Node list" where
  "shortcut_tree1 = [Node_init 0 0, shortcut_node1]"

definition shortcut_tree2 :: "Node list" where
  "shortcut_tree2 = [Node_init 0 0, shortcut_node1, shortcut_node2]"

definition shortcut_path :: "(real \<times> real) list" where
  "shortcut_path = [(1, 3 / 2), (1, 1), (0, 0)]"

definition shortcut_state2 :: search_state where
  "shortcut_state2 = \<lparr>node_list = shortcut_tree2, cBest = Fin (get_path_len shortcut_path),
                       pathLen = PosInf, path = Some shortcut_path\<rparr>"

subsection \<open>A run with a negative step length\<close>

text \<open>Start \<open>(0, 0)\<close>, goal \<open>(50, 50)\<close>, step length \<open>-40\<close>, no obstacles, sampling bounds
  \<open>-100\<close> and 100, three iterations. Every draw of \<^verbatim>\<open>randint\<close> is 100; the samples are
  \<open>(-1, 0)\<close>, \<open>(43, -4)\<close> and \<open>(44, -3)\<close>. A new node is steered away from the sample and
  costs 40 less than the node it is steered from. The third new node is steered from
  node 1 (\<open>neg_steered3\<close>) and connected to node 2 by parent selection; rewiring then
  gives node 0 the new node as parent (\<open>neg_root\<close>).\<close>

definition neg_planner :: InformedRRTStar where
  "neg_planner = planner (0, 0) (50, 50) [] (- 100, 100) (- 40) 10 3"

definition neg_draws :: "nat \<Rightarrow> draw" where
  "neg_draws i =
     (if i = 0 then long_draw (99 / 200) (1 / 2)
      else if i = 1 then long_draw (143 / 200) (12 / 25)
      else long_draw (18 / 25) (97 / 200))"

definition neg_node1 :: Node where
  "neg_node1 = \<lparr>node_x = 40, node_y = 0, cost = - 40, parent = Some 0\<rparr>"

definition neg_node2 :: Node where
  "neg_node2 = \<lparr>node_x = 16, node_y = 32, cost = - 80, parent = Some 1\<rparr>"

definition neg_steered3 :: Node where
  "neg_steered3 = \<lparr>node_x = 8, node_y = 24, cost = - 80, parent = Some 1\<rparr>"

definition neg_node3 :: Node where
  "neg_node3 = \<lparr>node_x = 8, node_y = 24, cost = sqrt 128 - 80, parent = Some 2\<rparr>"

definition neg_root :: Node where
  "neg_root = \<lparr>node_x = 0, node_y = 0, cost = sqrt 128 - 80 + sqrt 640, parent = Some 3\<rparr>"

definition neg_tree1 :: "Node list" where
  "neg_tree1 = [Node_init 0 0, neg_node1]"

definition neg_tree2 :: "Node list" where
  "neg_tree2 = [Node_init 0 0, neg_node1, neg_node2]"

definition neg_tree3 :: "Node list" where
  "neg_tree3 = [neg_root, neg_node1, neg_node2, neg_node3]"

section \<open>Lemmas on the functions of the planner\<close>

subsection \<open>Python list helpers and distances\<close>

lemma list_index_nth: "v \<in> set xs \<Longrightarrow> list_index xs v < length xs \<and> xs ! list_index xs v = v"
  by (induction xs) auto

lemma py_min_mem: "py_min m vs \<in> set (m # vs)"
  by (induction vs arbitrary: m) auto

lemma py_min_hd_tl: "dList \<noteq> [] \<Longrightarrow> py_min (hd dList) (tl dList) \<in> set dList"
  using py_min_mem [of "hd dList" "tl dList"] by (cases dList) auto

lemma min_list_mem: "xs \<noteq> [] \<Longrightarrow> min_list xs \<in> set (xs :: real list)"
  by (simp add: min_list_Min)

lemma line_cost_nonneg: "0 \<le> line_cost a b"
  by (simp add: line_cost_def)

lemma line_cost_commute: "line_cost a b = line_cost b a"
  by (simp add: line_cost_def power2_commute)

subsection \<open>What \<open>extend_tree\<close> returns\<close>

lemma get_nearest_less:
  assumes "get_nearest_list_index nodes rnd = Inr nind"
  shows "nind < length nodes"
proof -
  define dList where
    "dList = map (\<lambda>node. (node_x node - fst rnd)\<^sup>2 + (node_y node - snd rnd)\<^sup>2) nodes"
  have eq: "get_nearest_list_index nodes rnd =
      (if dList = [] then Inl ValueError else Inr (list_index dList (min_list dList)))"
    unfolding get_nearest_list_index_def dList_def Let_def by simp
  have ne: "dList \<noteq> []"
    using assms eq by (cases "dList = []") simp_all
  have nind: "nind = list_index dList (min_list dList)"
    using assms eq ne by simp
  have "min_list dList \<in> set dList" using ne by (rule min_list_mem)
  then have "list_index dList (min_list dList) < length dList"
    by (simp add: list_index_nth)
  with nind show ?thesis by (simp add: dList_def)
qed

lemma steer_distance:
  "line_cost (get_new_node P theta nind nearestNode) nearestNode = \<bar>expand_dis P\<bar>"
proof -
  have "(expand_dis P * cos theta)\<^sup>2 + (expand_dis P * sin theta)\<^sup>2 = (expand_dis P)\<^sup>2"
    by (simp add: power_mult_distrib distrib_left [symmetric])
  then show ?thesis
    by (simp add: line_cost_def get_new_node_def)
qed

lemma find_near_nodes_less:
  assumes "find_near_nodes nodes newNode = Inr nearInds"
  shows "\<forall>i\<in>set nearInds. i < length nodes"
proof -
  define dlist where
    "dlist = map (\<lambda>node. (node_x node - node_x newNode)\<^sup>2
                            + (node_y node - node_y newNode)\<^sup>2) nodes"
  have eq: "find_near_nodes nodes newNode =
      (if length nodes = 0 then Inl ValueError
       else Inr (map (list_index dlist)
                   (filter (\<lambda>i. i \<le> (near_radius (length nodes))\<^sup>2) dlist)))"
    unfolding find_near_nodes_def dlist_def Let_def by simp
  have inds: "nearInds = map (list_index dlist)
                   (filter (\<lambda>i. i \<le> (near_radius (length nodes))\<^sup>2) dlist)"
    using assms eq by (cases "length nodes = 0") simp_all
  show ?thesis
  proof
    fix i assume "i \<in> set nearInds"
    then obtain v where v: "v \<in> set dlist" "i = list_index dlist v"
      unfolding inds by auto
    from list_index_nth [OF v(1)] v(2) show "i < length nodes" by (simp add: dlist_def)
  qed
qed

lemma parent_costs_nth:
  "parent_costs P nodes newNode inds = Inr dList \<Longrightarrow>
     length dList = length inds \<and>
     (\<forall>j<length inds. inds ! j < length nodes \<and>
        (dList ! j = PosInf \<or>
         dList ! j = Fin (cost (nodes ! (inds ! j)) + line_cost newNode (nodes ! (inds ! j)))))"
proof (induction inds arbitrary: dList)
  case Nil
  then show ?case by simp
next
  case (Cons i inds)
  from Cons.prems obtain free rest where
    i: "i < length nodes" and
    rest: "parent_costs P nodes newNode inds = Inr rest" and
    dl: "dList = (if free then Fin (cost (nodes ! i) + sqrt ((node_x newNode - node_x (nodes ! i))\<^sup>2
                    + (node_y newNode - node_y (nodes ! i))\<^sup>2)) else PosInf) # rest"
    by (auto simp: Let_def split: if_splits sum.splits)
  note ih = Cons.IH [OF rest]
  show ?case
  proof (intro conjI allI impI)
    show "length dList = length (i # inds)" using ih dl by simp
  next
    fix j assume j: "j < length (i # inds)"
    show "(i # inds) ! j < length nodes"
      using i ih j by (cases j) auto
    show "dList ! j = PosInf \<or>
         dList ! j = Fin (cost (nodes ! ((i # inds) ! j)) + line_cost newNode (nodes ! ((i # inds) ! j)))"
      using ih j dl by (cases j) (auto simp: line_cost_def)
  qed
qed

lemma choose_parent_cases:
  assumes "choose_parent P nodes newNode nearInds = Inr chosen"
  shows "chosen = newNode \<or>
         (\<exists>p. p \<in> set nearInds \<and> p < length nodes \<and>
              chosen = newNode\<lparr>cost := cost (nodes ! p) + line_cost newNode (nodes ! p),
                               parent := Some p\<rparr>)"
proof (cases "nearInds = []")
  case True
  with assms show ?thesis by (simp add: choose_parent_def)
next
  case False
  with assms obtain dList where dl: "parent_costs P nodes newNode nearInds = Inr dList"
    by (auto simp: choose_parent_def split: sum.splits)
  note facts = parent_costs_nth [OF dl]
  from facts False have ne: "dList \<noteq> []" by auto
  let ?m = "py_min (hd dList) (tl dList)"
  let ?j = "list_index dList ?m"
  have mem: "?m \<in> set dList" using ne by (rule py_min_hd_tl)
  from list_index_nth [OF mem] have j: "?j < length dList" "dList ! ?j = ?m" by auto
  show ?thesis
  proof (cases ?m)
    case PosInf
    with assms False dl show ?thesis by (simp add: choose_parent_def)
  next
    case (Fin c)
    with assms False dl have ch: "chosen = newNode\<lparr>cost := c, parent := Some (nearInds ! ?j)\<rparr>"
      by (simp add: choose_parent_def Let_def)
    from facts j Fin have
      "nearInds ! ?j < length nodes"
      "c = cost (nodes ! (nearInds ! ?j)) + line_cost newNode (nodes ! (nearInds ! ?j))"
      by auto
    moreover have "nearInds ! ?j \<in> set nearInds" using facts j by simp
    ultimately show ?thesis using ch by blast
  qed
qed

lemma extend_tree_parts:
  assumes ext: "extend_tree P nodes rnd = Inr (Some (newNode, nearInds))"
  shows "\<exists>nind theta. get_nearest_list_index nodes rnd = Inr nind \<and>
           find_near_nodes nodes (get_new_node P theta nind (nodes ! nind)) = Inr nearInds \<and>
           choose_parent P nodes (get_new_node P theta nind (nodes ! nind)) nearInds = Inr newNode"
proof -
  from ext obtain nind where nind: "get_nearest_list_index nodes rnd = Inr nind"
    by (auto simp: extend_tree_def split: sum.splits)
  define theta where "theta = atan2 (snd rnd - node_y (nodes ! nind)) (fst rnd - node_x (nodes ! nind))"
  define steered where "steered = get_new_node P theta nind (nodes ! nind)"
  define d where "d = line_cost (nodes ! nind) steered"
  have unfolded: "extend_tree P nodes rnd =
      (case check_collision_extend P (nodes ! nind) theta d of
         Inl e \<Rightarrow> Inl e
       | Inr isCollisionEx \<Rightarrow>
           if collision_check steered (obstacle_list P) \<and> isCollisionEx then
             (case find_near_nodes nodes steered of
                Inl e \<Rightarrow> Inl e
              | Inr inds \<Rightarrow>
                  (case choose_parent P nodes steered inds of
                     Inl e \<Rightarrow> Inl e
                   | Inr chosen \<Rightarrow> Inr (Some (chosen, inds))))
           else Inr None)"
    unfolding extend_tree_def nind Let_def theta_def steered_def d_def by simp
  obtain ex where ex: "check_collision_extend P (nodes ! nind) theta d = Inr ex"
    using ext unfolded by (cases "check_collision_extend P (nodes ! nind) theta d") auto
  have ok: "collision_check steered (obstacle_list P) \<and> ex"
    using ext unfolded ex by (auto split: if_splits)
  obtain inds where inds: "find_near_nodes nodes steered = Inr inds"
    using ext unfolded ex ok by (cases "find_near_nodes nodes steered") auto
  obtain chosen where chosen: "choose_parent P nodes steered inds = Inr chosen"
    using ext unfolded ex ok inds by (cases "choose_parent P nodes steered inds") auto
  have "inds = nearInds" "chosen = newNode"
    using ext unfolded ex ok inds chosen by auto
  with inds chosen nind show ?thesis unfolding steered_def by blast
qed

lemma extend_tree_parent:
  assumes ext: "extend_tree P nodes rnd = Inr (Some (newNode, nearInds))"
  shows "(\<exists>p. p < length nodes \<and> parent newNode = Some p)
         \<and> (\<forall>i\<in>set nearInds. i < length nodes)"
proof -
  from extend_tree_parts [OF ext] obtain nind theta where
    nind: "get_nearest_list_index nodes rnd = Inr nind" and
    near: "find_near_nodes nodes (get_new_node P theta nind (nodes ! nind)) = Inr nearInds" and
    ch: "choose_parent P nodes (get_new_node P theta nind (nodes ! nind)) nearInds = Inr newNode"
    by blast
  have lt: "nind < length nodes" using nind by (rule get_nearest_less)
  have st: "parent (get_new_node P theta nind (nodes ! nind)) = Some nind"
    by (simp add: get_new_node_def)
  have inds: "\<forall>i\<in>set nearInds. i < length nodes"
    using near by (rule find_near_nodes_less)
  from choose_parent_cases [OF ch] st lt inds show ?thesis by auto
qed

lemma extend_tree_new:
  assumes ext: "extend_tree P nodes rnd = Inr (Some (newNode, nearInds))"
    and pos: "0 < expand_dis P"
  shows "(\<exists>p. p < length nodes \<and> parent newNode = Some p \<and>
              cost newNode = cost (nodes ! p) + line_cost newNode (nodes ! p))
         \<and> (\<forall>i\<in>set nearInds. i < length nodes)"
proof -
  from extend_tree_parts [OF ext] obtain nind theta where
    nind: "get_nearest_list_index nodes rnd = Inr nind" and
    near: "find_near_nodes nodes (get_new_node P theta nind (nodes ! nind)) = Inr nearInds" and
    ch: "choose_parent P nodes (get_new_node P theta nind (nodes ! nind)) nearInds = Inr newNode"
    by blast
  define steered where "steered = get_new_node P theta nind (nodes ! nind)"
  have lt: "nind < length nodes" using nind by (rule get_nearest_less)
  have st: "parent steered = Some nind"
    "cost steered = cost (nodes ! nind) + line_cost steered (nodes ! nind)"
    using pos steer_distance [of P theta nind "nodes ! nind"]
    by (simp_all add: steered_def get_new_node_def)
  have inds: "\<forall>i\<in>set nearInds. i < length nodes"
    using near by (rule find_near_nodes_less)
  from choose_parent_cases [OF ch [folded steered_def]] show ?thesis
  proof
    assume "newNode = steered"
    with st lt inds show ?thesis by blast
  next
    assume "\<exists>p. p \<in> set nearInds \<and> p < length nodes \<and>
              newNode = steered\<lparr>cost := cost (nodes ! p) + line_cost steered (nodes ! p),
                               parent := Some p\<rparr>"
    then obtain p where p: "p < length nodes"
      "newNode = steered\<lparr>cost := cost (nodes ! p) + line_cost steered (nodes ! p), parent := Some p\<rparr>"
      by blast
    have "line_cost newNode (nodes ! p) = line_cost steered (nodes ! p)"
      using p(2) by (simp add: line_cost_def)
    with p inds show ?thesis by auto
  qed
qed

subsection \<open>What the rewiring loop does\<close>

lemma rewire_loop_Cons_cases:
  assumes "rewire_loop P newNode n (i # inds) nodes = Inr nodes'"
  shows "i < length nodes \<and>
         (rewire_loop P newNode n inds nodes = Inr nodes' \<or>
          (cost newNode + line_cost (nodes ! i) newNode < cost (nodes ! i) \<and>
           rewire_loop P newNode n inds
             (nodes[i := (nodes ! i)\<lparr>parent := Some (n - 1),
                                     cost := cost newNode + line_cost (nodes ! i) newNode\<rparr>])
             = Inr nodes'))"
proof -
  have i: "i < length nodes"
    using assms by (cases "length nodes \<le> i") simp_all
  define d where "d = line_cost (nodes ! i) newNode"
  define theta where "theta = atan2 (node_y newNode - node_y (nodes ! i))
                                (node_x newNode - node_x (nodes ! i))"
  have unfolded: "rewire_loop P newNode n (i # inds) nodes =
     (if cost newNode + d < cost (nodes ! i) then
        (case check_collision_extend P (nodes ! i) theta d of
           Inl e \<Rightarrow> Inl e
         | Inr free \<Rightarrow>
             if free then
               rewire_loop P newNode n inds
                 (nodes[i := (nodes ! i)\<lparr>parent := Some (n - 1), cost := cost newNode + d\<rparr>])
             else rewire_loop P newNode n inds nodes)
      else rewire_loop P newNode n inds nodes)"
    using i unfolding d_def theta_def line_cost_def by (simp add: Let_def)
  show ?thesis
  proof (cases "cost newNode + d < cost (nodes ! i)")
    case False
    with assms unfolded i show ?thesis by simp
  next
    case True
    show ?thesis
    proof (cases "check_collision_extend P (nodes ! i) theta d")
      case (Inl e)
      with assms unfolded True show ?thesis by simp
    next
      case (Inr free)
      with assms unfolded True i show ?thesis
        by (cases free) (simp_all add: d_def)
    qed
  qed
qed

lemma rewire_loop_last:
  "m < length nodes \<Longrightarrow> \<forall>i\<in>set inds. i < m \<Longrightarrow>
   rewire_loop P newNode n inds nodes = Inr nodes' \<Longrightarrow>
   length nodes' = length nodes \<and> nodes' ! m = nodes ! m"
proof (induction inds arbitrary: nodes)
  case Nil
  then show ?case by simp
next
  case (Cons i inds)
  from Cons.prems(2) have im: "i < m" and rest: "\<forall>k\<in>set inds. k < m" by simp_all
  from rewire_loop_Cons_cases [OF Cons.prems(3)]
  consider (same) "rewire_loop P newNode n inds nodes = Inr nodes'"
    | (upd) "rewire_loop P newNode n inds
           (nodes[i := (nodes ! i)\<lparr>parent := Some (n - 1),
                                   cost := cost newNode + line_cost (nodes ! i) newNode\<rparr>])
           = Inr nodes'"
    by auto
  then show ?case
  proof cases
    case same
    from Cons.IH [OF Cons.prems(1) rest same] show ?thesis .
  next
    case upd
    have "m < length (nodes[i := (nodes ! i)\<lparr>parent := Some (n - 1),
                                   cost := cost newNode + line_cost (nodes ! i) newNode\<rparr>])"
      using Cons.prems(1) by simp
    from Cons.IH [OF this rest upd] im show ?thesis by simp
  qed
qed

lemma rewire_single:
  assumes "rewire_loop P newNode n [j] tree = Inr tree'" "tree' \<noteq> tree"
  shows "j < length tree \<and> parent (tree' ! j) = Some (n - 1)
         \<and> cost (tree' ! j) = cost newNode + line_cost (tree' ! j) newNode
         \<and> cost (tree' ! j) < cost (tree ! j)"
proof -
  from rewire_loop_Cons_cases [OF assms(1)] assms(2)
  have j: "j < length tree"
    and less: "cost newNode + line_cost (tree ! j) newNode < cost (tree ! j)"
    and eq: "tree' = tree[j := (tree ! j)\<lparr>parent := Some (n - 1),
                                     cost := cost newNode + line_cost (tree ! j) newNode\<rparr>]"
    by auto
  from j eq have "line_cost (tree' ! j) newNode = line_cost (tree ! j) newNode"
    by (simp add: line_cost_def)
  with j eq less show ?thesis by simp
qed

lemma set_take_less: "\<forall>i\<in>set inds. i < (m::nat) \<Longrightarrow> \<forall>i\<in>set (take j inds). i < m"
  by (meson in_set_takeD)

subsection \<open>Path extraction and path length\<close>

lemma final_course_prefix_all:
  assumes run: "final_course_loop nodes i acc = Some res"
  shows "\<forall>pth. res = Inr pth \<longrightarrow> (\<exists>more. pth = acc @ more)"
proof (rule final_course_loop.raw_induct
    [where P = "\<lambda>nodes i acc res. \<forall>pth. res = Inr pth \<longrightarrow> (\<exists>more. pth = acc @ more)",
     OF _ run])
  fix loop :: "Node list \<Rightarrow> nat \<Rightarrow> (real \<times> real) list \<Rightarrow> (error + (real \<times> real) list) option"
  fix nodes i acc res
  assume IH: "\<And>ns j ac r. loop ns j ac = Some r \<Longrightarrow>
                \<forall>pth. r = Inr pth \<longrightarrow> (\<exists>more. pth = ac @ more)"
  assume body: "(if length nodes \<le> i then Some (Inl IndexError)
      else case parent (nodes ! i) of None \<Rightarrow> Some (Inr acc)
           | Some p \<Rightarrow> loop nodes p (acc @ [(node_x (nodes ! i), node_y (nodes ! i))]))
     = Some res"
  show "\<forall>pth. res = Inr pth \<longrightarrow> (\<exists>more. pth = acc @ more)"
  proof (cases "length nodes \<le> i")
    case True
    with body show ?thesis by auto
  next
    case False
    show ?thesis
    proof (cases "parent (nodes ! i)")
      case None
      with False body show ?thesis by auto
    next
      case (Some p)
      with False body
      have "loop nodes p (acc @ [(node_x (nodes ! i), node_y (nodes ! i))]) = Some res"
        by simp
      from IH [OF this] show ?thesis by auto
    qed
  qed
qed

lemma final_course_prefix:
  "final_course_loop nodes i acc = Some res \<Longrightarrow> res = Inr pth \<Longrightarrow> \<exists>more. pth = acc @ more"
  using final_course_prefix_all by blast

lemma final_course_first:
  assumes "i < length nodes" "parent (nodes ! i) = Some p"
    and "final_course_loop nodes i acc = Some (Inr pth)"
  shows "\<exists>more. pth = acc @ (node_x (nodes ! i), node_y (nodes ! i)) # more"
proof -
  have "final_course_loop nodes i acc
          = final_course_loop nodes p (acc @ [(node_x (nodes ! i), node_y (nodes ! i))])"
    using assms(1,2) by (subst final_course_loop.simps) simp
  with assms(3) have "final_course_loop nodes p (acc @ [(node_x (nodes ! i), node_y (nodes ! i))])
          = Some (Inr pth)" by simp
  from final_course_prefix [OF this refl] show ?thesis by auto
qed

lemma get_final_course_Inr:
  assumes "get_final_course P nodes i = Some (Inr pth)"
  shows "\<exists>body. final_course_loop nodes i [goal_point P] = Some (Inr body)
                \<and> pth = body @ [start_point P]"
proof (cases "final_course_loop nodes i [goal_point P]")
  case None
  with assms show ?thesis by (simp add: get_final_course_def goal_point_def)
next
  case (Some res)
  with assms show ?thesis
    by (cases res) (simp_all add: get_final_course_def goal_point_def start_point_def)
qed

lemma get_final_course_ends:
  assumes "get_final_course P nodes i = Some (Inr pth)"
  shows "pth \<noteq> [] \<and> hd pth = goal_point P \<and> last pth = start_point P"
proof -
  from get_final_course_Inr [OF assms] obtain body where
    body: "final_course_loop nodes i [goal_point P] = Some (Inr body)"
      "pth = body @ [start_point P]" by blast
  from final_course_prefix [OF body(1) refl] obtain more where "body = [goal_point P] @ more"
    by blast
  with body(2) show ?thesis by simp
qed

lemma get_final_course_shape:
  assumes "i < length nodes" "parent (nodes ! i) = Some p"
    and "get_final_course P nodes i = Some (Inr pth)"
  shows "\<exists>more. pth = goal_point P # (node_x (nodes ! i), node_y (nodes ! i)) # more
                       @ [start_point P]"
proof -
  from get_final_course_Inr [OF assms(3)] obtain body where
    body: "final_course_loop nodes i [goal_point P] = Some (Inr body)"
      "pth = body @ [start_point P]" by blast
  from final_course_first [OF assms(1,2) body(1)] obtain more where
    "body = [goal_point P] @ (node_x (nodes ! i), node_y (nodes ! i)) # more" by blast
  with body(2) show ?thesis by simp
qed


lemma point_dist_commute: "point_dist p q = point_dist q p"
  by (simp add: point_dist_def power2_commute)





lemma cMin_zero_iff: "(cMin_of P = 0) = (start_point P = goal_point P)"
  by (auto simp: cMin_of_def start_point_def goal_point_def)

lemma planner_points:
  "start_point (planner s g obs ra e gsr mi) = s"
  "goal_point (planner s g obs ra e gsr mi) = g"
  by (simp_all add: planner_def start_point_def goal_point_def Node_init_def)

lemma planner_start: "parent (start (planner s g obs ra e gsr mi)) = None"
  by (simp add: planner_def Node_init_def)

lemma planner_step: "expand_dis (planner s g obs ra e gsr mi) = e"
  by (simp add: planner_def)

subsection \<open>What one iteration does to the state\<close>

lemma check_goal_cases:
  assumes "check_goal P st newNode = Some (Inr st')"
  shows "st' = st \<or>
         (is_near_goal P newNode \<and>
          (\<exists>tp. get_final_course P (node_list st) (length (node_list st) - 1) = Some (Inr tp)
                \<and> st' = st\<lparr>path := Some tp, cBest := Fin (get_path_len tp)\<rparr>))"
proof (cases "is_near_goal P newNode")
  case False
  with assms show ?thesis by (simp add: check_goal_def)
next
  case True
  show ?thesis
  proof (cases "get_final_course P (node_list st) (length (node_list st) - 1)")
    case None
    with assms True show ?thesis by (simp add: check_goal_def)
  next
    case (Some res)
    show ?thesis
    proof (cases res)
      case (Inl e)
      with assms True Some show ?thesis by (simp add: check_goal_def)
    next
      case (Inr tp)
      with assms True Some show ?thesis
        by (cases "fless (Fin (get_path_len tp)) (pathLen st)")
           (simp_all add: check_goal_def Let_def)
    qed
  qed
qed

lemma check_goal_node_list:
  "check_goal P st newNode = Some (Inr st') \<Longrightarrow> node_list st' = node_list st"
  using check_goal_cases [of P st newNode st'] by auto

lemma iteration_cases:
  assumes "iteration P cMin xCenter C st dr = Some (Inr st')"
  shows "st' = st \<or>
         (\<exists>rnd newNode nearInds nodes.
            extend_tree P (node_list st) rnd = Inr (Some (newNode, nearInds)) \<and>
            rewire P (node_list st @ [newNode]) newNode nearInds = Inr nodes \<and>
            check_goal P (st\<lparr>node_list := nodes\<rparr>) newNode = Some (Inr st'))"
proof (cases "informed_sample P (cBest st) cMin xCenter C dr")
  case (Inl e)
  with assms show ?thesis by (simp add: iteration_def)
next
  case (Inr rnd)
  show ?thesis
  proof (cases "extend_tree P (node_list st) rnd")
    case (Inl e)
    with assms Inr show ?thesis by (simp add: iteration_def)
  next
    case ext: (Inr grown)
    show ?thesis
    proof (cases grown)
      case None
      with assms Inr ext show ?thesis by (simp add: iteration_def)
    next
      case (Some pair)
      obtain newNode nearInds where pair: "pair = (newNode, nearInds)" by (cases pair)
      show ?thesis
      proof (cases "rewire P (node_list st @ [newNode]) newNode nearInds")
        case (Inl e)
        with assms Inr ext Some pair show ?thesis by (simp add: iteration_def)
      next
        case rw: (Inr nodes)
        with assms Inr ext Some pair
        have "check_goal P (st\<lparr>node_list := nodes\<rparr>) newNode = Some (Inr st')"
          by (simp add: iteration_def)
        with ext Some pair rw show ?thesis by blast
      qed
    qed
  qed
qed

lemma iteration_state_inv:
  assumes inv: "state_inv P st"
    and it: "iteration P cMin xCenter C st dr = Some (Inr st')"
  shows "state_inv P st'"
  using iteration_cases [OF it]
proof
  assume "st' = st"
  with inv show ?thesis by simp
next
  assume "\<exists>rnd newNode nearInds nodes.
            extend_tree P (node_list st) rnd = Inr (Some (newNode, nearInds)) \<and>
            rewire P (node_list st @ [newNode]) newNode nearInds = Inr nodes \<and>
            check_goal P (st\<lparr>node_list := nodes\<rparr>) newNode = Some (Inr st')"
  then obtain rnd newNode nearInds nodes where
    ext: "extend_tree P (node_list st) rnd = Inr (Some (newNode, nearInds))" and
    rw: "rewire P (node_list st @ [newNode]) newNode nearInds = Inr nodes" and
    cg: "check_goal P (st\<lparr>node_list := nodes\<rparr>) newNode = Some (Inr st')"
    by blast
  from inv have inv': "state_inv P (st\<lparr>node_list := nodes\<rparr>)"
    by (simp add: state_inv_def split: option.splits)
  from check_goal_cases [OF cg] show ?thesis
  proof
    assume "st' = st\<lparr>node_list := nodes\<rparr>"
    with inv' show ?thesis by simp
  next
    assume "is_near_goal P newNode \<and>
          (\<exists>tp. get_final_course P (node_list (st\<lparr>node_list := nodes\<rparr>))
                   (length (node_list (st\<lparr>node_list := nodes\<rparr>)) - 1) = Some (Inr tp)
                \<and> st' = st\<lparr>node_list := nodes\<rparr>\<lparr>path := Some tp, cBest := Fin (get_path_len tp)\<rparr>)"
    then obtain tp where near: "is_near_goal P newNode"
      and course: "get_final_course P nodes (length nodes - 1) = Some (Inr tp)"
      and st': "st' = st\<lparr>node_list := nodes, path := Some tp, cBest := Fin (get_path_len tp)\<rparr>"
      by auto
    from extend_tree_parent [OF ext] obtain p where
      p: "parent newNode = Some p" and inds: "\<forall>i\<in>set nearInds. i < length (node_list st)"
      by blast
    have "length nodes = length (node_list st @ [newNode])
          \<and> nodes ! length (node_list st) = (node_list st @ [newNode]) ! length (node_list st)"
      using rw inds unfolding rewire_def by (intro rewire_loop_last) simp_all
    then have len: "length nodes = Suc (length (node_list st))"
      and lastn: "nodes ! (length nodes - 1) = newNode" by simp_all
    have "length nodes - 1 < length nodes" using len by simp
    from get_final_course_shape [OF this _ course, of p] p lastn
    obtain more where tp: "tp = goal_point P # (node_x newNode, node_y newNode) # more
                                  @ [start_point P]" by auto
    have "point_dist (goal_point P) (node_x newNode, node_y newNode) < expand_dis P"
      using near by (simp add: is_near_goal_def line_cost_def point_dist_def goal_point_def
            power2_commute)
    with tp have "good_path P tp" by (simp add: good_path_def)
    with inv st' show ?thesis by (simp add: state_inv_def)
  qed
qed

lemma search_loop_state_inv:
  "state_inv P st \<Longrightarrow> search_loop P cMin xCenter C drs st = Some (Inr st') \<Longrightarrow>
   state_inv P st'"
proof (induction drs arbitrary: st)
  case Nil
  then show ?case by simp
next
  case (Cons dr drs)
  from Cons.prems(2) obtain mid where
    it: "iteration P cMin xCenter C st dr = Some (Inr mid)" and
    rest: "search_loop P cMin xCenter C drs mid = Some (Inr st')"
    by (auto split: option.splits sum.splits)
  from iteration_state_inv [OF Cons.prems(1) it] rest show ?case by (rule Cons.IH)
qed

lemma search_run_loop:
  assumes "search_run P c2 rng k = Some (Inr st)"
  shows "cMin_of P \<noteq> 0 \<and>
         (\<exists>C. search_loop P (cMin_of P) (xCenter_of P) C (map rng [0..<k]) (initial_state P)
                = Some (Inr st))"
proof (cases "cMin_of P = 0")
  case True
  with assms show ?thesis by (simp add: search_run_def)
next
  case False
  with assms show ?thesis by (auto simp: search_run_def Let_def)
qed

lemma search_run_state_inv:
  assumes "search_run P c2 rng k = Some (Inr st)"
  shows "state_inv P st"
proof -
  from search_run_loop [OF assms] obtain C where
    "search_loop P (cMin_of P) (xCenter_of P) C (map rng [0..<k]) (initial_state P) = Some (Inr st)"
    by blast
  moreover have "state_inv P (initial_state P)"
    by (simp add: state_inv_def initial_state_def)
  ultimately show ?thesis using search_loop_state_inv by blast
qed


section \<open>The tree invariant\<close>

subsection \<open>Parent handles stay in range\<close>

lemma parents_in_range_append:
  assumes "parents_in_range nodes" "p < length nodes" "parent new = Some p"
  shows "parents_in_range (nodes @ [new])"
  unfolding parents_in_range_def
proof (intro allI impI)
  fix i q assume a: "i < length (nodes @ [new]) \<and> parent ((nodes @ [new]) ! i) = Some q"
  show "q < length (nodes @ [new]) \<and> q \<noteq> i"
  proof (cases "i < length nodes")
    case True
    with a have "parent (nodes ! i) = Some q" by (simp add: nth_append)
    with assms(1) True have "q < length nodes \<and> q \<noteq> i" unfolding parents_in_range_def by blast
    then show ?thesis by simp
  next
    case False
    with a have "i = length nodes" by simp
    with a assms(2,3) show ?thesis by (simp add: nth_append)
  qed
qed

lemma parents_in_range_update:
  assumes "parents_in_range nodes" "i < m" "m < length nodes"
  shows "parents_in_range (nodes[i := (nodes ! i)\<lparr>parent := Some m, cost := c\<rparr>])"
  unfolding parents_in_range_def
proof (intro allI impI)
  let ?nodes' = "nodes[i := (nodes ! i)\<lparr>parent := Some m, cost := c\<rparr>]"
  fix j q assume a: "j < length ?nodes' \<and> parent (?nodes' ! j) = Some q"
  show "q < length ?nodes' \<and> q \<noteq> j"
  proof (cases "j = i")
    case True
    with a assms(2,3) show ?thesis by simp
  next
    case False
    with a have "j < length nodes" "parent (nodes ! j) = Some q" by simp_all
    with assms(1) have "q < length nodes \<and> q \<noteq> j" unfolding parents_in_range_def by blast
    then show ?thesis by simp
  qed
qed

lemma rewire_loop_parents_in_range:
  "parents_in_range nodes \<Longrightarrow> m < length nodes \<Longrightarrow> \<forall>i\<in>set inds. i < m \<Longrightarrow>
   rewire_loop P newNode (Suc m) inds nodes = Inr nodes' \<Longrightarrow> parents_in_range nodes'"
proof (induction inds arbitrary: nodes)
  case Nil
  then show ?case by simp
next
  case (Cons i inds)
  from Cons.prems(3) have im: "i < m" and rest: "\<forall>k\<in>set inds. k < m" by simp_all
  from rewire_loop_Cons_cases [OF Cons.prems(4)]
  consider (same) "rewire_loop P newNode (Suc m) inds nodes = Inr nodes'"
    | (upd) "rewire_loop P newNode (Suc m) inds
           (nodes[i := (nodes ! i)\<lparr>parent := Some m,
                                   cost := cost newNode + line_cost (nodes ! i) newNode\<rparr>])
           = Inr nodes'"
    by auto
  then show ?case
  proof cases
    case same
    from Cons.IH [OF Cons.prems(1,2) rest same] show ?thesis .
  next
    case upd
    from parents_in_range_update [OF Cons.prems(1) im Cons.prems(2)]
    have "parents_in_range (nodes[i := (nodes ! i)\<lparr>parent := Some m,
                                   cost := cost newNode + line_cost (nodes ! i) newNode\<rparr>])" .
    moreover have "m < length (nodes[i := (nodes ! i)\<lparr>parent := Some m,
                                   cost := cost newNode + line_cost (nodes ! i) newNode\<rparr>])"
      using Cons.prems(2) by simp
    ultimately show ?thesis using rest upd by (rule Cons.IH)
  qed
qed

lemma reachable_parents_in_range:
  assumes root: "parent (start P) = None"
  shows "reachable P nodes \<Longrightarrow> parents_in_range nodes"
proof (induction rule: reachable.induct)
  case reach_init
  from root show ?case by (simp add: parents_in_range_def)
next
  case (reach_rewire nodes rnd newNode nearInds j nodes')
  from extend_tree_parent [OF reach_rewire.hyps(2)]
  obtain p where p: "p < length nodes" "parent newNode = Some p"
    and inds: "\<forall>i\<in>set nearInds. i < length nodes"
    by blast
  have inv: "parents_in_range (nodes @ [newNode])"
    using reach_rewire.IH p by (rule parents_in_range_append)
  have m: "length nodes < length (nodes @ [newNode])" by simp
  from rewire_loop_parents_in_range [OF inv m set_take_less [OF inds] reach_rewire.hyps(3)]
  show ?case .
qed

subsection \<open>Costs grow along the edges and every node is rooted\<close>

lemma tree_inv_init:
  assumes "parent (start P) = None"
  shows "tree_inv [start P]"
proof -
  have "valid_parents [start P]" using assms by (auto simp: valid_parents_def)
  moreover have "cost_bounded [start P]" using assms by (auto simp: cost_bounded_def)
  moreover have "rooted [start P] 0" using assms by (simp add: rooted_root)
  ultimately show ?thesis by (simp add: tree_inv_def)
qed

lemma rooted_less: "rooted nodes i \<Longrightarrow> i < length nodes"
  by (induction rule: rooted.induct) auto

lemma rooted_append: "rooted nodes i \<Longrightarrow> rooted (nodes @ [new]) i"
proof (induction rule: rooted.induct)
  case (rooted_root i)
  then show ?case by (simp add: rooted.rooted_root nth_append)
next
  case (rooted_step i p)
  have "i < length (nodes @ [new])" using rooted_step.hyps(1) by simp
  moreover have "parent ((nodes @ [new]) ! i) = Some p"
    using rooted_step.hyps(1,2) by (simp add: nth_append)
  ultimately show ?case using rooted_step.IH by (rule rooted.rooted_step)
qed

lemma valid_parents_ex:
  "valid_parents nodes \<Longrightarrow> 0 < i \<Longrightarrow> i < length nodes \<Longrightarrow>
     \<exists>p. parent (nodes ! i) = Some p \<and> p < length nodes \<and> p \<noteq> i"
  by (simp add: valid_parents_def)

lemma valid_parents_parent:
  assumes "valid_parents nodes" "i < length nodes" "parent (nodes ! i) = Some p"
  shows "p < length nodes \<and> p \<noteq> i \<and> 0 < i"
proof -
  have "0 < i"
  proof (rule ccontr)
    assume "\<not> 0 < i"
    then have "i = 0" by simp
    with assms show False by (simp add: valid_parents_def)
  qed
  from valid_parents_ex [OF assms(1) this assms(2)] assms(3) \<open>0 < i\<close> show ?thesis by auto
qed

lemma valid_parents_root:
  assumes "valid_parents nodes" "i < length nodes"
  shows "(parent (nodes ! i) = None) = (i = 0)"
proof (cases "i = 0")
  case True
  with assms show ?thesis by (simp add: valid_parents_def)
next
  case False
  then have "0 < i" by simp
  from valid_parents_ex [OF assms(1) this assms(2)] obtain p where "parent (nodes ! i) = Some p"
    by blast
  with False show ?thesis by simp
qed

lemma tree_inv_append:
  assumes inv: "tree_inv nodes"
    and p: "p < length nodes" "parent new = Some p"
    and c: "cost new = cost (nodes ! p) + line_cost new (nodes ! p)"
  shows "tree_inv (nodes @ [new])"
proof -
  from inv have vp: "valid_parents nodes" and cb: "cost_bounded nodes"
    and ro: "\<forall>i<length nodes. rooted nodes i"
    by (simp_all add: tree_inv_def)
  from vp have ne: "nodes \<noteq> []" by (simp add: valid_parents_def)
  have vp': "valid_parents (nodes @ [new])"
    unfolding valid_parents_def
  proof (intro conjI allI impI)
    show "nodes @ [new] \<noteq> []" by simp
    show "parent ((nodes @ [new]) ! 0) = None"
      using vp ne by (simp add: nth_append valid_parents_def)
  next
    fix i assume i: "0 < i \<and> i < length (nodes @ [new])"
    show "\<exists>q. parent ((nodes @ [new]) ! i) = Some q \<and> q < length (nodes @ [new]) \<and> q \<noteq> i"
    proof (cases "i < length nodes")
      case True
      from i have "0 < i" by simp
      from valid_parents_ex [OF vp this True]
      obtain q where "parent (nodes ! i) = Some q" "q < length nodes" "q \<noteq> i"
        by blast
      with True show ?thesis by (simp add: nth_append)
    next
      case False
      with i have "i = length nodes" by simp
      with p show ?thesis by (simp add: nth_append)
    qed
  qed
  have cb': "cost_bounded (nodes @ [new])"
    unfolding cost_bounded_def
  proof (intro allI impI)
    fix i q assume a: "i < length (nodes @ [new]) \<and> parent ((nodes @ [new]) ! i) = Some q"
    show "cost ((nodes @ [new]) ! q) + line_cost ((nodes @ [new]) ! i) ((nodes @ [new]) ! q)
          \<le> cost ((nodes @ [new]) ! i)"
    proof (cases "i < length nodes")
      case True
      with a have par: "parent (nodes ! i) = Some q" by (simp add: nth_append)
      from valid_parents_parent [OF vp True par] have q: "q < length nodes" by simp
      from cb True par have "cost (nodes ! q) + line_cost (nodes ! i) (nodes ! q) \<le> cost (nodes ! i)"
        unfolding cost_bounded_def by blast
      with True q show ?thesis by (simp add: nth_append)
    next
      case False
      with a have i: "i = length nodes" by simp
      with a p have "q = p" by (simp add: nth_append)
      with i p c show ?thesis by (simp add: nth_append)
    qed
  qed
  have ro': "\<forall>i<length (nodes @ [new]). rooted (nodes @ [new]) i"
  proof (intro allI impI)
    fix i assume i: "i < length (nodes @ [new])"
    show "rooted (nodes @ [new]) i"
    proof (cases "i < length nodes")
      case True
      with ro show ?thesis by (simp add: rooted_append)
    next
      case False
      with i have eq: "i = length nodes" by simp
      have "rooted (nodes @ [new]) p" using ro p by (simp add: rooted_append)
      moreover have "parent ((nodes @ [new]) ! i) = Some p" using eq p by (simp add: nth_append)
      ultimately show ?thesis using i by (simp add: rooted_step)
    qed
  qed
  from vp' cb' ro' show ?thesis by (simp add: tree_inv_def)
qed

lemma rooted_cost_ge:
  assumes "valid_parents nodes" "cost_bounded nodes"
  shows "rooted nodes j \<Longrightarrow> cost (nodes ! 0) \<le> cost (nodes ! j)"
proof (induction rule: rooted.induct)
  case (rooted_root i)
  with valid_parents_root [OF assms(1)] have "i = 0" by simp
  then show ?case by simp
next
  case (rooted_step i p)
  from assms(2) rooted_step.hyps(1,2)
  have "cost (nodes ! p) + line_cost (nodes ! i) (nodes ! p) \<le> cost (nodes ! i)"
    unfolding cost_bounded_def by blast
  with rooted_step.IH line_cost_nonneg [of "nodes ! i" "nodes ! p"] show ?case by linarith
qed

lemma rewire_step_inv:
  assumes inv: "tree_inv nodes"
    and im: "i < m" "m < length nodes"
    and less: "cost (nodes ! m) + line_cost (nodes ! i) (nodes ! m) < cost (nodes ! i)"
  defines "nodes' \<equiv> nodes[i := (nodes ! i)\<lparr>parent := Some m,
                       cost := cost (nodes ! m) + line_cost (nodes ! i) (nodes ! m)\<rparr>]"
  shows "tree_inv nodes'"
proof -
  from inv have vp: "valid_parents nodes" and cb: "cost_bounded nodes"
    and ro: "\<forall>i<length nodes. rooted nodes i"
    by (simp_all add: tree_inv_def)
  have len: "length nodes' = length nodes" by (simp add: nodes'_def)
  have il: "i < length nodes" using im by simp
  have at_i: "nodes' ! i = (nodes ! i)\<lparr>parent := Some m,
                       cost := cost (nodes ! m) + line_cost (nodes ! i) (nodes ! m)\<rparr>"
    using il by (simp add: nodes'_def)
  have other: "\<And>j. j \<noteq> i \<Longrightarrow> nodes' ! j = nodes ! j" by (simp add: nodes'_def)
  have pos: "\<And>j. j < length nodes \<Longrightarrow> node_x (nodes' ! j) = node_x (nodes ! j)
                                    \<and> node_y (nodes' ! j) = node_y (nodes ! j)"
  proof -
    fix j assume "j < length nodes"
    show "node_x (nodes' ! j) = node_x (nodes ! j) \<and> node_y (nodes' ! j) = node_y (nodes ! j)"
      by (cases "j = i") (simp_all add: at_i other)
  qed
  have lc: "\<And>j k. j < length nodes \<Longrightarrow> k < length nodes \<Longrightarrow>
              line_cost (nodes' ! j) (nodes' ! k) = line_cost (nodes ! j) (nodes ! k)"
    using pos by (simp add: line_cost_def)
  have cost_le: "\<And>j. j < length nodes \<Longrightarrow> cost (nodes' ! j) \<le> cost (nodes ! j)"
  proof -
    fix j assume "j < length nodes"
    show "cost (nodes' ! j) \<le> cost (nodes ! j)"
      using less by (cases "j = i") (simp_all add: at_i other)
  qed
  have m_ge: "cost (nodes ! 0) \<le> cost (nodes ! m)"
    using rooted_cost_ge [OF vp cb] ro im by simp
  have i0: "0 < i"
  proof (rule ccontr)
    assume "\<not> 0 < i"
    then have "i = 0" by simp
    with less m_ge line_cost_nonneg [of "nodes ! i" "nodes ! m"] show False by simp
  qed
  have vp': "valid_parents nodes'"
    unfolding valid_parents_def
  proof (intro conjI allI impI)
    show "nodes' \<noteq> []" using vp len by (auto simp: valid_parents_def)
    show "parent (nodes' ! 0) = None" using vp i0 by (simp add: other valid_parents_def)
  next
    fix j assume j: "0 < j \<and> j < length nodes'"
    show "\<exists>q. parent (nodes' ! j) = Some q \<and> q < length nodes' \<and> q \<noteq> j"
    proof (cases "j = i")
      case True
      with im show ?thesis by (simp add: at_i len)
    next
      case False
      from j len have "0 < j" "j < length nodes" by simp_all
      from valid_parents_ex [OF vp this] False show ?thesis by (simp add: other len)
    qed
  qed
  have cb': "cost_bounded nodes'"
    unfolding cost_bounded_def
  proof (intro allI impI)
    fix j q assume a: "j < length nodes' \<and> parent (nodes' ! j) = Some q"
    show "cost (nodes' ! q) + line_cost (nodes' ! j) (nodes' ! q) \<le> cost (nodes' ! j)"
    proof (cases "j = i")
      case True
      with a have "q = m" by (simp add: at_i)
      moreover have "nodes' ! m = nodes ! m" using im by (simp add: other)
      moreover have "line_cost (nodes' ! i) (nodes ! m) = line_cost (nodes ! i) (nodes ! m)"
        by (simp add: at_i line_cost_def)
      ultimately show ?thesis using True by (simp add: at_i)
    next
      case False
      with a len have j: "j < length nodes" and par: "parent (nodes ! j) = Some q"
        by (simp_all add: other)
      from valid_parents_parent [OF vp j par] have q: "q < length nodes" by simp
      from cb j par have "cost (nodes ! q) + line_cost (nodes ! j) (nodes ! q) \<le> cost (nodes ! j)"
        unfolding cost_bounded_def by blast
      moreover have "cost (nodes' ! q) \<le> cost (nodes ! q)" using q by (rule cost_le)
      moreover have "line_cost (nodes' ! j) (nodes' ! q) = line_cost (nodes ! j) (nodes ! q)"
        using j q by (rule lc)
      moreover have "cost (nodes' ! j) = cost (nodes ! j)" using False by (simp add: other)
      ultimately show ?thesis by linarith
    qed
  qed
  have below: "rooted nodes j \<Longrightarrow> cost (nodes ! j) < cost (nodes ! i) \<Longrightarrow> rooted nodes' j" for j
  proof (induction rule: rooted.induct)
    case (rooted_root j)
    then have "j \<noteq> i" by auto
    with rooted_root.hyps show ?case by (simp add: rooted.rooted_root other len)
  next
    case (rooted_step j p)
    then have ne: "j \<noteq> i" by auto
    from cb rooted_step.hyps(1,2)
    have "cost (nodes ! p) + line_cost (nodes ! j) (nodes ! p) \<le> cost (nodes ! j)"
      unfolding cost_bounded_def by blast
    with rooted_step.prems line_cost_nonneg [of "nodes ! j" "nodes ! p"]
    have "cost (nodes ! p) < cost (nodes ! i)" by linarith
    then have "rooted nodes' p" by (rule rooted_step.IH)
    moreover have "j < length nodes'" using rooted_step.hyps(1) by (simp add: len)
    moreover have "parent (nodes' ! j) = Some p" using ne rooted_step.hyps(2) by (simp add: other)
    ultimately show ?case by (simp add: rooted.rooted_step)
  qed
  have "cost (nodes ! m) < cost (nodes ! i)"
    using less line_cost_nonneg [of "nodes ! i" "nodes ! m"] by linarith
  moreover have "rooted nodes m" using ro im by simp
  ultimately have rm: "rooted nodes' m" by (simp add: below)
  have ri: "rooted nodes' i"
  proof (rule rooted.rooted_step)
    show "i < length nodes'" using il by (simp add: len)
    show "parent (nodes' ! i) = Some m" by (simp add: at_i)
    show "rooted nodes' m" by (rule rm)
  qed
  have all: "rooted nodes j \<Longrightarrow> rooted nodes' j" for j
  proof (induction rule: rooted.induct)
    case (rooted_root j)
    show ?case
    proof (cases "j = i")
      case True
      with ri show ?thesis by simp
    next
      case False
      with rooted_root.hyps show ?thesis by (simp add: rooted.rooted_root other len)
    qed
  next
    case (rooted_step j p)
    show ?case
    proof (cases "j = i")
      case True
      with ri show ?thesis by simp
    next
      case False
      have "j < length nodes'" using rooted_step.hyps(1) by (simp add: len)
      moreover have "parent (nodes' ! j) = Some p"
        using False rooted_step.hyps(2) by (simp add: other)
      ultimately show ?thesis using rooted_step.IH by (rule rooted.rooted_step)
    qed
  qed
  have ro': "\<forall>j<length nodes'. rooted nodes' j" using ro all by (simp add: len)
  from vp' cb' ro' show ?thesis by (simp add: tree_inv_def)
qed

lemma rewire_loop_inv:
  "tree_inv nodes \<Longrightarrow> m < length nodes \<Longrightarrow> nodes ! m = newNode \<Longrightarrow>
   \<forall>i\<in>set inds. i < m \<Longrightarrow>
   rewire_loop P newNode (Suc m) inds nodes = Inr nodes' \<Longrightarrow>
   tree_inv nodes' \<and> length nodes' = length nodes \<and> nodes' ! m = newNode"
proof (induction inds arbitrary: nodes)
  case Nil
  then show ?case by simp
next
  case (Cons i inds)
  from Cons.prems(4) have im: "i < m" and rest: "\<forall>k\<in>set inds. k < m" by simp_all
  from rewire_loop_Cons_cases [OF Cons.prems(5)]
  consider (same) "rewire_loop P newNode (Suc m) inds nodes = Inr nodes'"
    | (upd) "cost newNode + line_cost (nodes ! i) newNode < cost (nodes ! i)"
        "rewire_loop P newNode (Suc m) inds
           (nodes[i := (nodes ! i)\<lparr>parent := Some m,
                                   cost := cost newNode + line_cost (nodes ! i) newNode\<rparr>])
           = Inr nodes'"
    by auto
  then show ?case
  proof cases
    case same
    from Cons.IH [OF Cons.prems(1) Cons.prems(2) Cons.prems(3) rest same] show ?thesis .
  next
    case upd
    define upd_nodes where
      "upd_nodes = nodes[i := (nodes ! i)\<lparr>parent := Some m,
                                   cost := cost newNode + line_cost (nodes ! i) newNode\<rparr>]"
    have less: "cost (nodes ! m) + line_cost (nodes ! i) (nodes ! m) < cost (nodes ! i)"
      using upd(1) Cons.prems(3) by simp
    have inv': "tree_inv upd_nodes"
      using rewire_step_inv [OF Cons.prems(1) im Cons.prems(2) less] Cons.prems(3)
      by (simp add: upd_nodes_def)
    have len: "length upd_nodes = length nodes" by (simp add: upd_nodes_def)
    have m': "m < length upd_nodes" using Cons.prems(2) by (simp add: len)
    have at_m: "upd_nodes ! m = newNode" using im Cons.prems(3) by (simp add: upd_nodes_def)
    from Cons.IH [OF inv' m' at_m rest upd(2) [folded upd_nodes_def]] len
    show ?thesis by simp
  qed
qed

lemma reachable_tree_inv:
  assumes root: "parent (start P) = None" and pos: "0 < expand_dis P"
  shows "reachable P nodes \<Longrightarrow> tree_inv nodes"
proof (induction rule: reachable.induct)
  case reach_init
  from root show ?case by (rule tree_inv_init)
next
  case (reach_rewire nodes rnd newNode nearInds j nodes')
  from extend_tree_new [OF reach_rewire.hyps(2) pos]
  obtain p where p: "p < length nodes" "parent newNode = Some p"
      "cost newNode = cost (nodes ! p) + line_cost newNode (nodes ! p)"
    and inds: "\<forall>i\<in>set nearInds. i < length nodes"
    by blast
  have inv: "tree_inv (nodes @ [newNode])"
    using reach_rewire.IH p by (rule tree_inv_append)
  have m: "length nodes < length (nodes @ [newNode])" by simp
  have at_m: "(nodes @ [newNode]) ! length nodes = newNode" by simp
  from rewire_loop_inv [OF inv m at_m set_take_less [OF inds] reach_rewire.hyps(3)]
  show ?case by simp
qed

subsection \<open>Following parent handles\<close>

lemma follow_parents_root:
  "i < length nodes \<Longrightarrow> parent (nodes ! i) = None \<Longrightarrow> follow_parents nodes fuel i = Some (i, 0)"
  by (cases fuel) simp_all

lemma follow_parents_step:
  "i < length nodes \<Longrightarrow> parent (nodes ! i) = Some p \<Longrightarrow>
   follow_parents nodes fuel p = Some (r, k) \<Longrightarrow>
   follow_parents nodes (Suc fuel) i = Some (r, Suc k)"
  by simp

lemma follow_parents_cases:
  assumes "follow_parents nodes fuel i = Some (r, k)"
  shows "i < length nodes \<and>
         (parent (nodes ! i) = None \<and> r = i \<and> k = 0 \<or>
          (\<exists>p f j. parent (nodes ! i) = Some p \<and> fuel = Suc f \<and> k = Suc j \<and>
                   follow_parents nodes f p = Some (r, j)))"
proof (cases fuel)
  case 0
  with assms show ?thesis by (auto split: if_splits option.splits)
next
  case (Suc f)
  with assms show ?thesis by (auto split: if_splits option.splits)
qed

lemma follow_parents_le: "follow_parents nodes fuel i = Some (r, k) \<Longrightarrow> k \<le> fuel"
proof (induction fuel arbitrary: i k)
  case 0
  from follow_parents_cases [OF 0] show ?case by auto
next
  case (Suc fuel)
  from follow_parents_cases [OF Suc.prems] Suc.IH show ?case by auto
qed

lemma follow_parents_exact:
  "follow_parents nodes fuel i = Some (r, k) \<Longrightarrow> follow_parents nodes (k + extra) i = Some (r, k)"
proof (induction fuel arbitrary: i k)
  case 0
  from follow_parents_cases [OF 0] show ?case by (auto simp: follow_parents_root)
next
  case (Suc fuel)
  from follow_parents_cases [OF Suc.prems]
  have i: "i < length nodes" and
    alt: "parent (nodes ! i) = None \<and> r = i \<and> k = 0 \<or>
          (\<exists>p j. parent (nodes ! i) = Some p \<and> k = Suc j \<and>
                   follow_parents nodes fuel p = Some (r, j))"
    by auto
  from alt show ?case
  proof
    assume "parent (nodes ! i) = None \<and> r = i \<and> k = 0"
    with i show ?thesis by (simp add: follow_parents_root)
  next
    assume "\<exists>p j. parent (nodes ! i) = Some p \<and> k = Suc j \<and>
                   follow_parents nodes fuel p = Some (r, j)"
    then obtain p j where p: "parent (nodes ! i) = Some p" and k: "k = Suc j"
      and rec: "follow_parents nodes fuel p = Some (r, j)" by blast
    from Suc.IH [OF rec] have "follow_parents nodes (j + extra) p = Some (r, j)" .
    from follow_parents_step [OF i p this] k show ?thesis by simp
  qed
qed

lemma follow_parents_unique:
  assumes "follow_parents nodes f i = Some (r, k)" "follow_parents nodes f' i = Some (r', k')"
  shows "r' = r \<and> k' = k"
  using assms
proof (induction f arbitrary: i k f' k')
  case 0
  from follow_parents_cases [OF 0(1)] follow_parents_cases [OF 0(2)] show ?case by auto
next
  case (Suc f)
  from follow_parents_cases [OF Suc.prems(1)]
  have alt: "parent (nodes ! i) = None \<and> r = i \<and> k = 0 \<or>
          (\<exists>p j. parent (nodes ! i) = Some p \<and> k = Suc j \<and>
                   follow_parents nodes f p = Some (r, j))"
    by auto
  from alt show ?case
  proof
    assume "parent (nodes ! i) = None \<and> r = i \<and> k = 0"
    with follow_parents_cases [OF Suc.prems(2)] show ?thesis by auto
  next
    assume "\<exists>p j. parent (nodes ! i) = Some p \<and> k = Suc j \<and>
                   follow_parents nodes f p = Some (r, j)"
    then obtain p j where p: "parent (nodes ! i) = Some p" and k: "k = Suc j"
      and rec: "follow_parents nodes f p = Some (r, j)" by blast
    from follow_parents_cases [OF Suc.prems(2)] p obtain g j' where
      k': "k' = Suc j'" and rec': "follow_parents nodes g p = Some (r', j')" by auto
    from Suc.IH [OF rec rec'] k k' show ?thesis by simp
  qed
qed

lemma follow_parents_chain:
  "follow_parents nodes fuel i = Some (r, k) \<Longrightarrow>
   \<exists>S. S \<subseteq> {..<length nodes} \<and> card S = Suc k \<and>
       (\<forall>j\<in>S. \<exists>f r' k'. follow_parents nodes f j = Some (r', k') \<and> k' \<le> k)"
proof (induction fuel arbitrary: i k)
  case 0
  from follow_parents_cases [OF 0] have i: "i < length nodes" and k: "k = 0" by auto
  have "{i} \<subseteq> {..<length nodes}" using i by simp
  moreover have "card {i} = Suc k" using k by simp
  moreover have "\<forall>j\<in>{i}. \<exists>f r' k'. follow_parents nodes f j = Some (r', k') \<and> k' \<le> k"
    using 0 by blast
  ultimately show ?case by blast
next
  case (Suc fuel)
  from follow_parents_cases [OF Suc.prems]
  have i: "i < length nodes" and
    alt: "parent (nodes ! i) = None \<and> r = i \<and> k = 0 \<or>
          (\<exists>p j. parent (nodes ! i) = Some p \<and> k = Suc j \<and>
                   follow_parents nodes fuel p = Some (r, j))"
    by auto
  from alt show ?case
  proof
    assume "parent (nodes ! i) = None \<and> r = i \<and> k = 0"
    then have k: "k = 0" by simp
    have "{i} \<subseteq> {..<length nodes}" using i by simp
    moreover have "card {i} = Suc k" using k by simp
    moreover have "\<forall>j\<in>{i}. \<exists>f r' k'. follow_parents nodes f j = Some (r', k') \<and> k' \<le> k"
      using Suc.prems by blast
    ultimately show ?thesis by blast
  next
    assume "\<exists>p j. parent (nodes ! i) = Some p \<and> k = Suc j \<and>
                   follow_parents nodes fuel p = Some (r, j)"
    then obtain p j where p: "parent (nodes ! i) = Some p" and k: "k = Suc j"
      and rec: "follow_parents nodes fuel p = Some (r, j)" by blast
    from Suc.IH [OF rec] obtain S where S: "S \<subseteq> {..<length nodes}" "card S = Suc j"
      and depth: "\<forall>m\<in>S. \<exists>f r' k'. follow_parents nodes f m = Some (r', k') \<and> k' \<le> j"
      by blast
    have fin: "finite S" using S(1) by (rule finite_subset) simp
    have notin: "i \<notin> S"
    proof
      assume "i \<in> S"
      with depth obtain f r' k' where "follow_parents nodes f i = Some (r', k')" "k' \<le> j"
        by blast
      with follow_parents_unique [OF Suc.prems this(1)] k show False by simp
    qed
    have "insert i S \<subseteq> {..<length nodes}" using S(1) i by simp
    moreover have "card (insert i S) = Suc k" using fin notin S(2) k by simp
    moreover have "\<forall>m\<in>insert i S. \<exists>f r' k'. follow_parents nodes f m = Some (r', k') \<and> k' \<le> k"
    proof
      fix m assume "m \<in> insert i S"
      then show "\<exists>f r' k'. follow_parents nodes f m = Some (r', k') \<and> k' \<le> k"
      proof
        assume "m = i"
        with Suc.prems show ?thesis by blast
      next
        assume "m \<in> S"
        with depth obtain f r' k' where "follow_parents nodes f m = Some (r', k')" "k' \<le> j"
          by blast
        with k show ?thesis by (intro exI [of _ f] exI [of _ r'] exI [of _ k']) simp
      qed
    qed
    ultimately show ?thesis by blast
  qed
qed

lemma follow_parents_bound:
  assumes "follow_parents nodes fuel i = Some (r, k)"
  shows "k < length nodes"
proof -
  from follow_parents_chain [OF assms] obtain S where
    "S \<subseteq> {..<length nodes}" "card S = Suc k" by blast
  then have "Suc k \<le> card {..<length nodes}"
    by (metis card_mono finite_lessThan)
  then show ?thesis by simp
qed

lemma rooted_follow_parents:
  assumes vp: "valid_parents nodes"
  shows "rooted nodes i \<Longrightarrow> \<exists>fuel k. follow_parents nodes fuel i = Some (0, k)"
proof (induction rule: rooted.induct)
  case (rooted_root i)
  with valid_parents_root [OF vp] have "i = 0" by simp
  with rooted_root follow_parents_root [of i nodes 0] show ?case by blast
next
  case (rooted_step i p)
  then obtain fuel k where "follow_parents nodes fuel p = Some (0, k)" by blast
  from follow_parents_step [OF rooted_step.hyps(1,2) this] show ?case by blast
qed

lemma tree_inv_follow_parents:
  assumes inv: "tree_inv nodes" and i: "i < length nodes"
  shows "\<exists>k<length nodes. follow_parents nodes (length nodes) i = Some (0, k)"
proof -
  from inv i have vp: "valid_parents nodes" and ro: "rooted nodes i"
    by (simp_all add: tree_inv_def)
  from rooted_follow_parents [OF vp ro] obtain fuel k where
    run: "follow_parents nodes fuel i = Some (0, k)" by blast
  from follow_parents_bound [OF run] have k: "k < length nodes" .
  from follow_parents_exact [OF run, of "length nodes - k"] k
  have "follow_parents nodes (length nodes) i = Some (0, k)" by simp
  with k show ?thesis by blast
qed

lemma rooted_final_course:
  "rooted nodes i \<Longrightarrow> \<exists>pth. final_course_loop nodes i acc = Some (Inr pth)"
proof (induction arbitrary: acc rule: rooted.induct)
  case (rooted_root i)
  then show ?case by (subst final_course_loop.simps) simp
next
  case (rooted_step i p)
  have "final_course_loop nodes i acc
          = final_course_loop nodes p (acc @ [(node_x (nodes ! i), node_y (nodes ! i))])"
    using rooted_step.hyps(1,2) by (subst final_course_loop.simps) simp
  with rooted_step.IH show ?case by simp
qed

lemma tree_inv_final_course:
  assumes "tree_inv nodes" "i < length nodes"
  shows "\<exists>pth. get_final_course P nodes i = Some (Inr pth)"
proof -
  from assms have "rooted nodes i" by (simp add: tree_inv_def)
  from rooted_final_course [OF this] obtain body where
    "final_course_loop nodes i [(node_x (goal P), node_y (goal P))] = Some (Inr body)" by blast
  then show ?thesis by (simp add: get_final_course_def)
qed

subsection \<open>The trees of the search are the reachable ones\<close>

lemma iteration_reachable:
  assumes "reachable P (node_list st)"
    and "iteration P cMin xCenter C st dr = Some (Inr st')"
  shows "reachable P (node_list st')"
  using iteration_cases [OF assms(2)]
proof
  assume "st' = st"
  with assms(1) show ?thesis by simp
next
  assume "\<exists>rnd newNode nearInds nodes.
            extend_tree P (node_list st) rnd = Inr (Some (newNode, nearInds)) \<and>
            rewire P (node_list st @ [newNode]) newNode nearInds = Inr nodes \<and>
            check_goal P (st\<lparr>node_list := nodes\<rparr>) newNode = Some (Inr st')"
  then obtain rnd newNode nearInds nodes where
    ext: "extend_tree P (node_list st) rnd = Inr (Some (newNode, nearInds))" and
    rw: "rewire P (node_list st @ [newNode]) newNode nearInds = Inr nodes" and
    cg: "check_goal P (st\<lparr>node_list := nodes\<rparr>) newNode = Some (Inr st')"
    by blast
  from rw have "rewire_loop P newNode (Suc (length (node_list st)))
                  (take (length nearInds) nearInds) (node_list st @ [newNode]) = Inr nodes"
    by (simp add: rewire_def)
  with assms(1) ext have "reachable P nodes" by (rule reach_rewire)
  with check_goal_node_list [OF cg] show ?thesis by simp
qed

lemma search_loop_reachable:
  "reachable P (node_list st) \<Longrightarrow> search_loop P cMin xCenter C drs st = Some (Inr st') \<Longrightarrow>
   reachable P (node_list st')"
proof (induction drs arbitrary: st)
  case Nil
  then show ?case by simp
next
  case (Cons dr drs)
  from Cons.prems(2) obtain mid where
    it: "iteration P cMin xCenter C st dr = Some (Inr mid)" and
    rest: "search_loop P cMin xCenter C drs mid = Some (Inr st')"
    by (auto split: option.splits sum.splits)
  from iteration_reachable [OF Cons.prems(1) it] rest show ?case by (rule Cons.IH)
qed

lemma search_run_reachable:
  assumes "search_run P c2 rng k = Some (Inr st)"
  shows "reachable P (node_list st)"
proof -
  from search_run_loop [OF assms] obtain C where
    "search_loop P (cMin_of P) (xCenter_of P) C (map rng [0..<k]) (initial_state P) = Some (Inr st)"
    by blast
  moreover have "reachable P (node_list (initial_state P))"
    by (simp add: initial_state_def reach_init)
  ultimately show ?thesis using search_loop_reachable by blast
qed

subsection \<open>The recorded path follows the parent handles\<close>

lemma parent_chain_cases:
  assumes "parent_chain nodes fuel i = Some chain"
  shows "i < length nodes \<and>
         (parent (nodes ! i) = None \<and> chain = [i] \<or>
          (\<exists>p f rest. parent (nodes ! i) = Some p \<and> fuel = Suc f \<and> chain = i # rest \<and>
                   parent_chain nodes f p = Some rest))"
proof (cases fuel)
  case 0
  with assms show ?thesis by (auto split: if_splits option.splits)
next
  case (Suc f)
  with assms show ?thesis by (auto split: if_splits option.splits)
qed

lemma parent_chain_root:
  "i < length nodes \<Longrightarrow> parent (nodes ! i) = None \<Longrightarrow> parent_chain nodes fuel i = Some [i]"
  by (cases fuel) simp_all

lemma parent_chain_step:
  "i < length nodes \<Longrightarrow> parent (nodes ! i) = Some p \<Longrightarrow>
   parent_chain nodes fuel p = Some rest \<Longrightarrow>
   parent_chain nodes (Suc fuel) i = Some (i # rest)"
  by simp

lemma parent_chain_follow:
  "parent_chain nodes fuel i = Some chain \<Longrightarrow>
   chain \<noteq> [] \<and> hd chain = i \<and> parent (nodes ! last chain) = None \<and>
   follow_parents nodes fuel i = Some (last chain, length chain - 1)"
proof (induction fuel arbitrary: i chain)
  case 0
  from parent_chain_cases [OF 0] show ?case by auto
next
  case (Suc fuel)
  from parent_chain_cases [OF Suc.prems]
  have i: "i < length nodes" and
    alt: "parent (nodes ! i) = None \<and> chain = [i] \<or>
          (\<exists>p rest. parent (nodes ! i) = Some p \<and> chain = i # rest \<and>
                   parent_chain nodes fuel p = Some rest)"
    by auto
  from alt show ?case
  proof
    assume "parent (nodes ! i) = None \<and> chain = [i]"
    with i show ?thesis by simp
  next
    assume "\<exists>p rest. parent (nodes ! i) = Some p \<and> chain = i # rest \<and>
                   parent_chain nodes fuel p = Some rest"
    then obtain p rest where p: "parent (nodes ! i) = Some p" and c: "chain = i # rest"
      and rec: "parent_chain nodes fuel p = Some rest" by blast
    from Suc.IH [OF rec] have ih: "rest \<noteq> []" "hd rest = p" "parent (nodes ! last rest) = None"
      "follow_parents nodes fuel p = Some (last rest, length rest - 1)" by simp_all
    from ih(1) have "Suc (length rest - 1) = length rest" by (cases rest) simp_all
    with follow_parents_step [OF i p ih(4)] ih(1,3) c show ?thesis by simp
  qed
qed

lemma parent_chain_exact:
  "parent_chain nodes fuel i = Some chain \<Longrightarrow>
   parent_chain nodes (length chain - 1 + extra) i = Some chain"
proof (induction fuel arbitrary: i chain)
  case 0
  from parent_chain_cases [OF 0] show ?case by (auto simp: parent_chain_root)
next
  case (Suc fuel)
  from parent_chain_cases [OF Suc.prems]
  have i: "i < length nodes" and
    alt: "parent (nodes ! i) = None \<and> chain = [i] \<or>
          (\<exists>p rest. parent (nodes ! i) = Some p \<and> chain = i # rest \<and>
                   parent_chain nodes fuel p = Some rest)"
    by auto
  from alt show ?case
  proof
    assume "parent (nodes ! i) = None \<and> chain = [i]"
    with i show ?thesis by (simp add: parent_chain_root)
  next
    assume "\<exists>p rest. parent (nodes ! i) = Some p \<and> chain = i # rest \<and>
                   parent_chain nodes fuel p = Some rest"
    then obtain p rest where p: "parent (nodes ! i) = Some p" and c: "chain = i # rest"
      and rec: "parent_chain nodes fuel p = Some rest" by blast
    from parent_chain_follow [OF rec] have ne: "rest \<noteq> []" by simp
    then have len: "length chain - 1 + extra = Suc (length rest - 1 + extra)"
      using c by (cases rest) simp_all
    from Suc.IH [OF rec] have "parent_chain nodes (length rest - 1 + extra) p = Some rest" .
    from parent_chain_step [OF i p this]
    have step: "parent_chain nodes (Suc (length rest - 1 + extra)) i = Some (i # rest)" .
    have "parent_chain nodes (length chain - 1 + extra) i
            = parent_chain nodes (Suc (length rest - 1 + extra)) i"
      by (simp only: len)
    with step c show ?thesis by (simp only:)
  qed
qed

lemma parent_chain_full:
  assumes "parent_chain nodes fuel i = Some chain"
  shows "parent_chain nodes (length nodes) i = Some chain"
proof -
  from parent_chain_follow [OF assms]
  have "follow_parents nodes fuel i = Some (last chain, length chain - 1)" by simp
  from follow_parents_bound [OF this] have "length chain - 1 < length nodes" .
  with parent_chain_exact [OF assms, of "length nodes - (length chain - 1)"]
  show ?thesis by simp
qed

lemma parent_chain_last:
  "parent_chain nodes fuel i = Some chain \<Longrightarrow> last chain < length nodes"
proof (induction fuel arbitrary: i chain)
  case 0
  from parent_chain_cases [OF 0] show ?case by auto
next
  case (Suc fuel)
  from parent_chain_cases [OF Suc.prems]
  have i: "i < length nodes" and
    alt: "parent (nodes ! i) = None \<and> chain = [i] \<or>
          (\<exists>p rest. parent (nodes ! i) = Some p \<and> chain = i # rest \<and>
                   parent_chain nodes fuel p = Some rest)"
    by auto
  from alt show ?case
  proof
    assume "parent (nodes ! i) = None \<and> chain = [i]"
    with i show ?thesis by simp
  next
    assume "\<exists>p rest. parent (nodes ! i) = Some p \<and> chain = i # rest \<and>
                   parent_chain nodes fuel p = Some rest"
    then obtain p rest where c: "chain = i # rest"
      and rec: "parent_chain nodes fuel p = Some rest" by blast
    from parent_chain_follow [OF rec] have "rest \<noteq> []" by simp
    with Suc.IH [OF rec] c show ?thesis by simp
  qed
qed

lemma final_course_chain_all:
  assumes run: "final_course_loop nodes i acc = Some res"
  shows "\<forall>body. res = Inr body \<longrightarrow>
           (\<exists>fuel chain. parent_chain nodes fuel i = Some chain
                         \<and> body = acc @ map (node_point nodes) (butlast chain))"
proof (rule final_course_loop.raw_induct
    [where P = "\<lambda>nodes i acc res. \<forall>body. res = Inr body \<longrightarrow>
           (\<exists>fuel chain. parent_chain nodes fuel i = Some chain
                         \<and> body = acc @ map (node_point nodes) (butlast chain))",
     OF _ run])
  fix loop :: "Node list \<Rightarrow> nat \<Rightarrow> (real \<times> real) list \<Rightarrow> (error + (real \<times> real) list) option"
  fix nodes i acc res
  assume IH: "\<And>ns j ac r. loop ns j ac = Some r \<Longrightarrow>
                \<forall>body. r = Inr body \<longrightarrow>
                  (\<exists>fuel chain. parent_chain ns fuel j = Some chain
                         \<and> body = ac @ map (node_point ns) (butlast chain))"
  assume body: "(if length nodes \<le> i then Some (Inl IndexError)
      else case parent (nodes ! i) of None \<Rightarrow> Some (Inr acc)
           | Some p \<Rightarrow> loop nodes p (acc @ [(node_x (nodes ! i), node_y (nodes ! i))]))
     = Some res"
  show "\<forall>body. res = Inr body \<longrightarrow>
           (\<exists>fuel chain. parent_chain nodes fuel i = Some chain
                         \<and> body = acc @ map (node_point nodes) (butlast chain))"
  proof (cases "length nodes \<le> i")
    case True
    with body show ?thesis by auto
  next
    case False
    then have i: "i < length nodes" by simp
    show ?thesis
    proof (cases "parent (nodes ! i)")
      case None
      with False body have res: "res = Inr acc" by simp
      have "parent_chain nodes 0 i = Some [i] \<and> acc = acc @ map (node_point nodes) (butlast [i])"
        using i None by simp
      with res show ?thesis by blast
    next
      case (Some p)
      with False body
      have rec: "loop nodes p (acc @ [(node_x (nodes ! i), node_y (nodes ! i))]) = Some res"
        by simp
      show ?thesis
      proof (intro allI impI)
        fix b assume "res = Inr b"
        with IH [OF rec] obtain fuel chain where
          ch: "parent_chain nodes fuel p = Some chain" and
          b: "b = (acc @ [(node_x (nodes ! i), node_y (nodes ! i))])
                   @ map (node_point nodes) (butlast chain)" by blast
        from parent_chain_follow [OF ch] have ne: "chain \<noteq> []" by simp
        from parent_chain_step [OF i Some ch]
        have "parent_chain nodes (Suc fuel) i = Some (i # chain)" .
        moreover have "b = acc @ map (node_point nodes) (butlast (i # chain))"
          using b ne by (simp add: node_point_def)
        ultimately show "\<exists>fuel chain. parent_chain nodes fuel i = Some chain
                         \<and> b = acc @ map (node_point nodes) (butlast chain)" by blast
      qed
    qed
  qed
qed

lemma get_final_course_chain:
  assumes "get_final_course P nodes i = Some (Inr pth)"
  shows "\<exists>chain. parent_chain nodes (length nodes) i = Some chain
                 \<and> pth = goal_point P # map (node_point nodes) (butlast chain) @ [start_point P]"
proof -
  from get_final_course_Inr [OF assms] obtain body where
    body: "final_course_loop nodes i [goal_point P] = Some (Inr body)"
      "pth = body @ [start_point P]" by blast
  from final_course_chain_all [OF body(1)] obtain fuel chain where
    ch: "parent_chain nodes fuel i = Some chain" and
    b: "body = [goal_point P] @ map (node_point nodes) (butlast chain)" by blast
  from parent_chain_full [OF ch] b body(2) show ?thesis by simp
qed

lemma root_inv_update:
  assumes "root_inv P nodes" "i < length nodes"
  shows "root_inv P (nodes[i := (nodes ! i)\<lparr>parent := Some m, cost := c\<rparr>])"
proof -
  let ?nodes' = "nodes[i := (nodes ! i)\<lparr>parent := Some m, cost := c\<rparr>]"
  from assms(1) have ne: "nodes \<noteq> []" and pt: "node_point nodes 0 = start_point P"
    and orphan: "\<And>j. j < length nodes \<Longrightarrow> parent (nodes ! j) = None \<Longrightarrow> j = 0"
    by (auto simp: root_inv_def)
  have "node_point ?nodes' 0 = node_point nodes 0"
    using assms(2) by (cases "i = 0") (simp_all add: node_point_def)
  moreover have "j = 0" if "j < length ?nodes'" "parent (?nodes' ! j) = None" for j
  proof (cases "j = i")
    case True
    with that assms(2) show ?thesis by simp
  next
    case False
    with that orphan [of j] show ?thesis by simp
  qed
  ultimately show ?thesis using ne pt by (simp add: root_inv_def)
qed

lemma root_inv_append:
  assumes "root_inv P nodes" "parent new = Some p"
  shows "root_inv P (nodes @ [new])"
proof -
  from assms(1) have ne: "nodes \<noteq> []" and pt: "node_point nodes 0 = start_point P"
    and orphan: "\<And>j. j < length nodes \<Longrightarrow> parent (nodes ! j) = None \<Longrightarrow> j = 0"
    by (auto simp: root_inv_def)
  have "node_point (nodes @ [new]) 0 = node_point nodes 0"
    using ne by (simp add: node_point_def nth_append)
  moreover have "j = 0" if "j < length (nodes @ [new])" "parent ((nodes @ [new]) ! j) = None" for j
  proof (cases "j < length nodes")
    case True
    with that orphan [of j] show ?thesis by (simp add: nth_append)
  next
    case False
    with that have "j = length nodes" by simp
    with that assms(2) show ?thesis by simp
  qed
  ultimately show ?thesis using pt by (simp add: root_inv_def)
qed

lemma rewire_loop_root_inv:
  assumes "rewire_loop P newNode n inds nodes = Inr nodes'"
    and "root_inv P nodes"
  shows "root_inv P nodes'"
  using assms
proof (induction inds arbitrary: nodes)
  case Nil
  then show ?case by simp
next
  case (Cons i inds)
  from rewire_loop_Cons_cases [OF Cons.prems(1)]
  have i: "i < length nodes" and
    alt: "rewire_loop P newNode n inds nodes = Inr nodes' \<or>
          rewire_loop P newNode n inds
             (nodes[i := (nodes ! i)\<lparr>parent := Some (n - 1),
                                     cost := cost newNode + line_cost (nodes ! i) newNode\<rparr>])
             = Inr nodes'"
    by auto
  from alt show ?case
  proof
    assume "rewire_loop P newNode n inds nodes = Inr nodes'"
    from Cons.IH [OF this Cons.prems(2)] show ?thesis .
  next
    assume rw: "rewire_loop P newNode n inds
             (nodes[i := (nodes ! i)\<lparr>parent := Some (n - 1),
                                     cost := cost newNode + line_cost (nodes ! i) newNode\<rparr>])
             = Inr nodes'"
    from Cons.IH [OF rw root_inv_update [OF Cons.prems(2) i]] show ?thesis .
  qed
qed

lemma reachable_root_inv: "reachable P nodes \<Longrightarrow> root_inv P nodes"
proof (induction rule: reachable.induct)
  case reach_init
  show ?case by (simp add: root_inv_def node_point_def start_point_def)
next
  case (reach_rewire nodes rnd newNode nearInds j nodes')
  from extend_tree_parent [OF reach_rewire.hyps(2)] obtain p where "parent newNode = Some p"
    by blast
  from root_inv_append [OF reach_rewire.IH this]
  have "root_inv P (nodes @ [newNode])" .
  with reach_rewire.hyps(3) show ?case by (rule rewire_loop_root_inv)
qed

lemma recorded_follows_parents:
  assumes reach: "reachable P nodes"
    and near: "is_near_goal P (nodes ! (length nodes - 1))"
    and par: "parent (nodes ! (length nodes - 1)) = Some p"
    and course: "get_final_course P nodes (length nodes - 1) = Some (Inr pth)"
  shows "follows_parents P nodes pth"
proof -
  from reachable_root_inv [OF reach] have ne: "nodes \<noteq> []"
    and pt: "node_point nodes 0 = start_point P"
    and orphan: "\<And>j. j < length nodes \<Longrightarrow> parent (nodes ! j) = None \<Longrightarrow> j = 0"
    by (auto simp: root_inv_def)
  from get_final_course_chain [OF course] obtain chain where
    ch: "parent_chain nodes (length nodes) (length nodes - 1) = Some chain" and
    pth: "pth = goal_point P # map (node_point nodes) (butlast chain) @ [start_point P]"
    by blast
  from parent_chain_follow [OF ch] have cne: "chain \<noteq> []"
    and root: "parent (nodes ! last chain) = None" by simp_all
  from orphan [OF parent_chain_last [OF ch] root] have last0: "last chain = 0" .
  from parent_chain_cases [OF ch] par obtain rest f where
    c: "chain = (length nodes - 1) # rest" and "parent_chain nodes f p = Some rest" by auto
  from parent_chain_follow [OF this(2)] have "rest \<noteq> []" by simp
  with c have len: "2 \<le> length chain" by (cases rest) simp_all
  have "map (node_point nodes) chain = map (node_point nodes) (butlast chain @ [last chain])"
    using cne by simp
  also have "\<dots> = map (node_point nodes) (butlast chain) @ [start_point P]"
    using last0 pt by simp
  finally have "pth = goal_point P # map (node_point nodes) chain" using pth by simp
  with ne near ch len last0 pt show ?thesis
    by (simp add: follows_parents_def last_conv_nth)
qed

lemma iteration_path_inv:
  assumes reach: "reachable P (node_list st)"
    and inv: "path_inv P st"
    and it: "iteration P cMin xCenter C st dr = Some (Inr st')"
  shows "path_inv P st'"
  using iteration_cases [OF it]
proof
  assume "st' = st"
  with inv show ?thesis by simp
next
  assume "\<exists>rnd newNode nearInds nodes.
            extend_tree P (node_list st) rnd = Inr (Some (newNode, nearInds)) \<and>
            rewire P (node_list st @ [newNode]) newNode nearInds = Inr nodes \<and>
            check_goal P (st\<lparr>node_list := nodes\<rparr>) newNode = Some (Inr st')"
  then obtain rnd newNode nearInds nodes where
    ext: "extend_tree P (node_list st) rnd = Inr (Some (newNode, nearInds))" and
    rw: "rewire P (node_list st @ [newNode]) newNode nearInds = Inr nodes" and
    cg: "check_goal P (st\<lparr>node_list := nodes\<rparr>) newNode = Some (Inr st')"
    by blast
  from inv have inv': "path_inv P (st\<lparr>node_list := nodes\<rparr>)"
    by (simp add: path_inv_def)
  from rw have "rewire_loop P newNode (Suc (length (node_list st)))
                  (take (length nearInds) nearInds) (node_list st @ [newNode]) = Inr nodes"
    by (simp add: rewire_def)
  with reach ext have reach': "reachable P nodes" by (rule reach_rewire)
  from check_goal_cases [OF cg] show ?thesis
  proof
    assume "st' = st\<lparr>node_list := nodes\<rparr>"
    with inv' show ?thesis by simp
  next
    assume "is_near_goal P newNode \<and>
          (\<exists>tp. get_final_course P (node_list (st\<lparr>node_list := nodes\<rparr>))
                   (length (node_list (st\<lparr>node_list := nodes\<rparr>)) - 1) = Some (Inr tp)
                \<and> st' = st\<lparr>node_list := nodes\<rparr>\<lparr>path := Some tp, cBest := Fin (get_path_len tp)\<rparr>)"
    then obtain tp where near: "is_near_goal P newNode"
      and course: "get_final_course P nodes (length nodes - 1) = Some (Inr tp)"
      and st': "st' = st\<lparr>node_list := nodes, path := Some tp, cBest := Fin (get_path_len tp)\<rparr>"
      by auto
    from extend_tree_parent [OF ext] obtain p where
      p: "parent newNode = Some p" and inds: "\<forall>i\<in>set nearInds. i < length (node_list st)"
      by blast
    have "length nodes = length (node_list st @ [newNode])
          \<and> nodes ! length (node_list st) = (node_list st @ [newNode]) ! length (node_list st)"
      using rw inds unfolding rewire_def by (intro rewire_loop_last) simp_all
    then have lastn: "nodes ! (length nodes - 1) = newNode" by simp
    from recorded_follows_parents [OF reach' _ _ course, of p] near p lastn
    have "follows_parents P nodes tp" by simp
    with reach' st' show ?thesis by (auto simp: path_inv_def)
  qed
qed

lemma search_loop_path_inv:
  "reachable P (node_list st) \<Longrightarrow> path_inv P st \<Longrightarrow>
   search_loop P cMin xCenter C drs st = Some (Inr st') \<Longrightarrow> path_inv P st'"
proof (induction drs arbitrary: st)
  case Nil
  then show ?case by simp
next
  case (Cons dr drs)
  from Cons.prems(3) obtain mid where
    it: "iteration P cMin xCenter C st dr = Some (Inr mid)" and
    rest: "search_loop P cMin xCenter C drs mid = Some (Inr st')"
    by (auto split: option.splits sum.splits)
  from iteration_reachable [OF Cons.prems(1) it] iteration_path_inv [OF Cons.prems(1,2) it] rest
  show ?case by (rule Cons.IH)
qed

lemma search_run_path_inv:
  assumes "search_run P c2 rng k = Some (Inr st)"
  shows "path_inv P st"
proof -
  from search_run_loop [OF assms] obtain C where
    "search_loop P (cMin_of P) (xCenter_of P) C (map rng [0..<k]) (initial_state P) = Some (Inr st)"
    by blast
  moreover have "reachable P (node_list (initial_state P))"
    by (simp add: initial_state_def reach_init)
  moreover have "path_inv P (initial_state P)"
    by (simp add: path_inv_def initial_state_def)
  ultimately show ?thesis using search_loop_path_inv by blast
qed

subsection \<open>The search returns\<close>

lemma check_goal_total:
  assumes "tree_inv (node_list st)"
  shows "check_goal P st newNode \<noteq> None"
proof -
  from assms have "node_list st \<noteq> []" by (simp add: tree_inv_def valid_parents_def)
  then have "length (node_list st) - 1 < length (node_list st)" by simp
  from tree_inv_final_course [OF assms this, of P] obtain pth where
    "get_final_course P (node_list st) (length (node_list st) - 1) = Some (Inr pth)" by blast
  then show ?thesis by (simp add: check_goal_def Let_def)
qed

lemma iteration_total:
  assumes root: "parent (start P) = None" and pos: "0 < expand_dis P"
    and reach: "reachable P (node_list st)"
  shows "iteration P cMin xCenter C st dr \<noteq> None"
proof (cases "informed_sample P (cBest st) cMin xCenter C dr")
  case (Inl e)
  then show ?thesis by (simp add: iteration_def)
next
  case (Inr rnd)
  show ?thesis
  proof (cases "extend_tree P (node_list st) rnd")
    case (Inl e)
    with Inr show ?thesis by (simp add: iteration_def)
  next
    case ext: (Inr grown)
    show ?thesis
    proof (cases grown)
      case None
      with Inr ext show ?thesis by (simp add: iteration_def)
    next
      case (Some pair)
      obtain newNode nearInds where pair: "pair = (newNode, nearInds)" by (cases pair)
      show ?thesis
      proof (cases "rewire P (node_list st @ [newNode]) newNode nearInds")
        case (Inl e)
        with Inr ext Some pair show ?thesis by (simp add: iteration_def)
      next
        case rw: (Inr nodes)
        from rw have rwl: "rewire_loop P newNode (Suc (length (node_list st)))
                  (take (length nearInds) nearInds) (node_list st @ [newNode]) = Inr nodes"
          by (simp add: rewire_def)
        have ext': "extend_tree P (node_list st) rnd = Inr (Some (newNode, nearInds))"
          using ext Some pair by simp
        from reach ext' rwl have "reachable P nodes" by (rule reach_rewire)
        from reachable_tree_inv [OF root pos this]
        have "tree_inv (node_list (st\<lparr>node_list := nodes\<rparr>))" by simp
        from check_goal_total [OF this]
        have "check_goal P (st\<lparr>node_list := nodes\<rparr>) newNode \<noteq> None" .
        moreover have "iteration P cMin xCenter C st dr
                         = check_goal P (st\<lparr>node_list := nodes\<rparr>) newNode"
          by (simp add: iteration_def Inr ext' rw)
        ultimately show ?thesis by simp
      qed
    qed
  qed
qed

lemma search_loop_total:
  assumes root: "parent (start P) = None" and pos: "0 < expand_dis P"
  shows "reachable P (node_list st) \<Longrightarrow> search_loop P cMin xCenter C drs st \<noteq> None"
proof (induction drs arbitrary: st)
  case Nil
  show ?case by simp
next
  case (Cons dr drs)
  from iteration_total [OF root pos Cons.prems] obtain res where
    it: "iteration P cMin xCenter C st dr = Some res" by blast
  show ?case
  proof (cases res)
    case (Inl e)
    with it show ?thesis by simp
  next
    case (Inr mid)
    with it iteration_reachable [OF Cons.prems] have "reachable P (node_list mid)" by blast
    from Cons.IH [OF this] it Inr show ?thesis by simp
  qed
qed

lemma search_terminates:
  assumes "0 < e"
  shows "informed_rrt_star_search (planner s g obs ra e gsr mi) c2 rng \<noteq> None"
proof -
  let ?P = "planner s g obs ra e gsr mi"
  have pos: "0 < expand_dis ?P" using assms by (simp add: planner_step)
  have "reachable ?P (node_list (initial_state ?P))"
    by (simp add: initial_state_def reach_init)
  from search_loop_total [OF planner_start pos this]
  have "search_run ?P c2 rng (max_iter ?P) \<noteq> None"
    by (simp add: search_run_def Let_def)
  then show ?thesis
    by (auto simp: informed_rrt_star_search_def split: option.splits sum.splits)
qed

section \<open>Running the planner on the examples\<close>

subsection \<open>Numbers\<close>

lemma atan2_right: "0 < a \<Longrightarrow> atan2 0 a = 0"
  by (simp add: atan2_def)

lemma cos_atan2: "0 < a \<Longrightarrow> cos (atan2 b a) = a / sqrt (a\<^sup>2 + b\<^sup>2)"
proof -
  assume a: "0 < a"
  have "1 + (b / a)\<^sup>2 = (a\<^sup>2 + b\<^sup>2) / a\<^sup>2"
    using a by (simp add: field_simps)
  then have "sqrt (1 + (b / a)\<^sup>2) = sqrt (a\<^sup>2 + b\<^sup>2) / a"
    using a by (simp add: real_sqrt_divide)
  then show ?thesis using a by (simp add: atan2_def cos_arctan)
qed

lemma sin_atan2: "0 < a \<Longrightarrow> sin (atan2 b a) = b / sqrt (a\<^sup>2 + b\<^sup>2)"
proof -
  assume a: "0 < a"
  have "1 + (b / a)\<^sup>2 = (a\<^sup>2 + b\<^sup>2) / a\<^sup>2"
    using a by (simp add: field_simps)
  then have "sqrt (1 + (b / a)\<^sup>2) = sqrt (a\<^sup>2 + b\<^sup>2) / a"
    using a by (simp add: real_sqrt_divide)
  then show ?thesis using a by (simp add: atan2_def sin_arctan)
qed

lemma sqrt_quarter: "sqrt (1 / 4) = 1 / 2"
  by (rule real_sqrt_unique) (simp_all add: power2_eq_square)

lemma sqrt_nine_quarters: "sqrt (9 / 4) = 3 / 2"
  by (rule real_sqrt_unique) (simp_all add: power2_eq_square)

lemma sqrt_400: "sqrt 400 = 20"
  by (rule real_sqrt_unique) simp_all

lemma sqrt_25: "sqrt 25 = 5"
  by (rule real_sqrt_unique) simp_all

lemma sqrt_272_less: "sqrt 272 < 20"
proof -
  have "sqrt 272 < sqrt 400" by (simp only: real_sqrt_less_iff)
  then show ?thesis by (simp only: sqrt_400)
qed

lemma sqrt_not_less_20: "400 \<le> a \<Longrightarrow> \<not> sqrt a < 20"
proof -
  assume "400 \<le> a"
  then have "sqrt 400 \<le> sqrt a" by (simp only: real_sqrt_le_iff)
  then show ?thesis by (simp add: sqrt_400)
qed

lemma ln2_ge_half: "1 / 2 \<le> ln (2::real)"
proof -
  have "exp (1 / 2 :: real) \<le> exp 1" by simp
  also have "\<dots> \<le> 3" by (rule exp_le)
  finally have e: "exp (1 / 2 :: real) \<le> 3" .
  have "exp (1 / 2 :: real) * exp (1 / 2) = exp 1" by (simp add: exp_add [symmetric])
  then have "(exp (1 / 2 :: real))\<^sup>2 \<le> 3" using exp_le by (simp add: power2_eq_square)
  then have "(exp (1 / 2 :: real))\<^sup>2 \<le> 2\<^sup>2" by simp
  then have le: "exp (1 / 2 :: real) \<le> 2" by (rule power2_le_imp_le) simp
  have "(1 / 2 \<le> ln (2::real)) = (exp (1 / 2) \<le> (2::real))"
    by (rule ln_ge_iff) simp
  with le show ?thesis by blast
qed

lemma ln2_less_1: "ln (2::real) < 1"
  by (rule ln_2_less_1)

lemma ln3_ge_1: "1 \<le> ln (3::real)"
  using exp_le by (simp add: ln_ge_iff)

lemma ln3_le: "ln (3::real) \<le> 3 / 2"
proof -
  have "1 + (3 / 2) + (3 / 2)\<^sup>2 / 2 \<le> exp (3 / 2 :: real)"
    by (rule exp_lower_Taylor_quadratic) simp
  then have a: "(3::real) \<le> exp (3 / 2)" by (simp add: power2_eq_square)
  have "ln (3::real) \<le> ln (exp (3 / 2))" using a by (subst ln_le_cancel_iff) simp_all
  also have "\<dots> = 3 / 2" by (rule ln_exp)
  finally show ?thesis .
qed

lemma ln4: "ln (4::real) = 2 * ln 2"
  using ln_realpow [of 2 2] by simp

lemma near_radius_sq: "0 < n \<Longrightarrow> (near_radius n)\<^sup>2 = 2500 * ln (real n) / real n"
  by (simp add: near_radius_def power_mult_distrib)

lemma near_radius_1: "near_radius (Suc 0) = 0"
  by (simp add: near_radius_def)

lemma near_radius_2: "625 \<le> (near_radius (Suc (Suc 0)))\<^sup>2"
proof -
  have "(near_radius 2)\<^sup>2 = 1250 * ln 2" by (simp add: near_radius_sq)
  with ln2_ge_half have "625 \<le> (near_radius 2)\<^sup>2" by simp
  then show ?thesis by (simp only: numeral_2_eq_2)
qed

lemma near_radius_2_upper: "(near_radius (Suc (Suc 0)))\<^sup>2 < 1250"
proof -
  have "(near_radius 2)\<^sup>2 = 1250 * ln 2" by (simp add: near_radius_sq)
  with ln2_less_1 have "(near_radius 2)\<^sup>2 < 1250" by simp
  then show ?thesis by (simp only: numeral_2_eq_2)
qed

lemma near_radius_3: "800 \<le> (near_radius (Suc (Suc (Suc 0))))\<^sup>2"
  "(near_radius (Suc (Suc (Suc 0))))\<^sup>2 \<le> 1250"
proof -
  have eq: "(near_radius 3)\<^sup>2 = 2500 * ln 3 / 3" by (simp add: near_radius_sq)
  from eq ln3_ge_1 have "800 \<le> (near_radius 3)\<^sup>2" by simp
  then show "800 \<le> (near_radius (Suc (Suc (Suc 0))))\<^sup>2" by (simp only: numeral_3_eq_3)
  from eq ln3_le have "(near_radius 3)\<^sup>2 \<le> 1250" by simp
  then show "(near_radius (Suc (Suc (Suc 0))))\<^sup>2 \<le> 1250" by (simp only: numeral_3_eq_3)
qed

lemma near_radius_4: "625 \<le> (near_radius (Suc (Suc (Suc (Suc 0)))))\<^sup>2"
  "(near_radius (Suc (Suc (Suc (Suc 0)))))\<^sup>2 < 1250"
proof -
  have four: "Suc (Suc (Suc (Suc 0))) = 4" by simp
  have eq: "(near_radius 4)\<^sup>2 = 1250 * ln 2" by (simp add: near_radius_sq ln4)
  from eq ln2_ge_half have "625 \<le> (near_radius 4)\<^sup>2" by simp
  then show "625 \<le> (near_radius (Suc (Suc (Suc (Suc 0)))))\<^sup>2" by (simp only: four)
  from eq ln2_less_1 have "(near_radius 4)\<^sup>2 < 1250" by simp
  then show "(near_radius (Suc (Suc (Suc (Suc 0)))))\<^sup>2 < 1250" by (simp only: four)
qed

subsection \<open>Rules to run the loop body on given values\<close>

lemma extend_loop_no_obstacles: "obstacle_list P = [] \<Longrightarrow> extend_loop P theta n tmpNode"
  by (induction n arbitrary: tmpNode) simp_all

lemma check_collision_extend_no_obstacles:
  "obstacle_list P = [] \<Longrightarrow> expand_dis P \<noteq> 0 \<Longrightarrow>
   check_collision_extend P nearNode theta d = Inr True"
  by (simp add: check_collision_extend_def extend_loop_no_obstacles)

lemma extend_treeI:
  assumes "get_nearest_list_index nodes rnd = Inr nind"
    and "get_new_node P (atan2 (snd rnd - node_y (nodes ! nind)) (fst rnd - node_x (nodes ! nind)))
           nind (nodes ! nind) = steered"
    and "collision_check steered (obstacle_list P)"
    and "\<And>theta d. check_collision_extend P (nodes ! nind) theta d = Inr True"
    and "find_near_nodes nodes steered = Inr nearInds"
    and "choose_parent P nodes steered nearInds = Inr chosen"
  shows "extend_tree P nodes rnd = Inr (Some (chosen, nearInds))"
  unfolding extend_tree_def assms(1) by (simp add: Let_def assms(2-6))

lemma choose_parentI:
  assumes "nearInds \<noteq> []"
    and "parent_costs P nodes newNode nearInds = Inr dList"
    and "py_min (hd dList) (tl dList) = Fin c"
    and "list_index dList (Fin c) = j"
    and "nearInds ! j = minInd"
  shows "choose_parent P nodes newNode nearInds = Inr (newNode\<lparr>cost := c, parent := Some minInd\<rparr>)"
  using assms(1) unfolding choose_parent_def assms(2) by (simp add: Let_def assms(3-5))

lemma check_goalI:
  assumes "is_near_goal P newNode"
    and "get_final_course P (node_list st) (length (node_list st) - 1) = Some (Inr tempPath)"
    and "get_path_len tempPath = len"
    and "pathLen st = PosInf"
  shows "check_goal P st newNode = Some (Inr (st\<lparr>path := Some tempPath, cBest := Fin len\<rparr>))"
  using assms by (simp add: check_goal_def Let_def)

lemma check_goal_far: "\<not> is_near_goal P newNode \<Longrightarrow> check_goal P st newNode = Some (Inr st)"
  by (simp add: check_goal_def)

lemma iterationI:
  assumes "informed_sample P (cBest st) cMin xCenter C dr = Inr rnd"
    and "extend_tree P (node_list st) rnd = Inr (Some (newNode, nearInds))"
    and "rewire P (node_list st @ [newNode]) newNode nearInds = Inr nodes"
    and "check_goal P (st\<lparr>node_list := nodes\<rparr>) newNode = Some (Inr st')"
  shows "iteration P cMin xCenter C st dr = Some (Inr st')"
  unfolding iteration_def assms(1) by (simp add: assms(2-4))

subsection \<open>The tree with a tie\<close>

lemma find_near_tie: "find_near_nodes tie_nodes tie_new = Inr [0, 1, 1]"
proof -
  have r: "(2::real) \<le> (near_radius 3)\<^sup>2"
    using ln3_ge_1 by (simp add: near_radius_sq)
  then have r3: "(2::real) \<le> (near_radius (Suc (Suc (Suc 0))))\<^sup>2"
    by (simp only: numeral_3_eq_3)
  then have r1: "(1::real) \<le> (near_radius (Suc (Suc (Suc 0))))\<^sup>2" by linarith
  show ?thesis
    using r3 r1 by (simp add: find_near_nodes_def tie_nodes_def tie_new_def Node_init_def Let_def)
qed

lemma tie_within: "line_cost (tie_nodes ! 2) tie_new \<le> near_radius 3"
proof -
  have "(line_cost (tie_nodes ! 2) tie_new)\<^sup>2 = 2"
    by (simp add: line_cost_def tie_nodes_def tie_new_def)
  moreover have "(2::real) \<le> (near_radius 3)\<^sup>2"
    using ln3_ge_1 by (simp add: near_radius_sq)
  moreover have "0 \<le> near_radius 3" by (simp add: near_radius_def)
  ultimately show ?thesis
    by (metis power2_le_imp_le)
qed

subsection \<open>The run that reaches the goal twice\<close>

lemma short_fields:
  "start short_planner = Node_init 0 0"
  "goal short_planner = Node_init (3 / 2) 0"
  "expand_dis short_planner = 1"
  "goal_sample_rate short_planner = 10"
  "obstacle_list short_planner = []"
  "max_iter short_planner = 2"
  by (simp_all add: short_planner_def planner_def)

lemma short_free [simp]: "check_collision_extend short_planner nearNode theta d = Inr True"
  by (simp add: check_collision_extend_no_obstacles short_fields)

lemma short_cMin: "cMin_of short_planner = 3 / 2"
  by (simp add: cMin_of_def short_fields Node_init_def sqrt_nine_quarters)

lemma short_xCenter: "xCenter_of short_planner = (3 / 4, 0)"
  by (simp add: xCenter_of_def short_fields Node_init_def)

lemma short_extend1:
  "extend_tree short_planner [Node_init 0 0] (3 / 2, 0) = Inr (Some (short_node1, []))"
proof (rule extend_treeI [where nind = 0 and steered = short_node1])
  show "get_nearest_list_index [Node_init 0 0] (3 / 2, 0) = Inr 0"
    by (simp add: get_nearest_list_index_def)
  show "get_new_node short_planner
          (atan2 (snd (3 / 2, 0) - node_y ([Node_init 0 0] ! 0))
                 (fst (3 / 2, 0) - node_x ([Node_init 0 0] ! 0)))
          0 ([Node_init 0 0] ! 0) = short_node1"
    by (simp add: get_new_node_def atan2_right short_fields Node_init_def short_node1_def)
  show "collision_check short_node1 (obstacle_list short_planner)"
    by (simp add: short_fields)
  show "\<And>theta d. check_collision_extend short_planner ([Node_init 0 0] ! 0) theta d = Inr True"
    by simp
  show "find_near_nodes [Node_init 0 0] short_node1 = Inr []"
    by (simp add: find_near_nodes_def near_radius_1 Node_init_def short_node1_def)
  show "choose_parent short_planner [Node_init 0 0] short_node1 [] = Inr short_node1"
    by (simp add: choose_parent_def)
qed

lemma short_course1:
  "get_final_course short_planner [Node_init 0 0, short_node1]
       (length [Node_init 0 0, short_node1] - 1)
     = Some (Inr [(3 / 2, 0), (1, 0), (0, 0)])"
  by (simp add: get_final_course_def final_course_loop.simps short_fields Node_init_def
        short_node1_def)

lemma short_len1: "get_path_len [(3 / 2, 0), (1, 0), (0, 0)] = 3 / 2"
  by (simp add: get_path_len_def sqrt_quarter)

lemma short_near1: "is_near_goal short_planner short_node1"
  by (simp add: is_near_goal_def line_cost_def short_fields Node_init_def short_node1_def
        sqrt_quarter)

lemma short_iteration1:
  "iteration short_planner (3 / 2) (3 / 4, 0) ((1, c01), (0, c11))
     (initial_state short_planner) (short_draws 0) = Some (Inr short_state1)"
proof (rule iterationI [where rnd = "(3 / 2, 0)" and newNode = short_node1 and nearInds = "[]"
          and nodes = "[Node_init 0 0, short_node1]"])
  show "informed_sample short_planner (cBest (initial_state short_planner)) (3 / 2) (3 / 4, 0)
          ((1, c01), (0, c11)) (short_draws 0) = Inr (3 / 2, 0)"
    by (simp add: informed_sample_def sample_free_space_def short_draws_def short_fields
          Node_init_def initial_state_def)
  show "extend_tree short_planner (node_list (initial_state short_planner)) (3 / 2, 0)
          = Inr (Some (short_node1, []))"
    using short_extend1 by (simp add: initial_state_def short_fields)
  show "rewire short_planner (node_list (initial_state short_planner) @ [short_node1])
          short_node1 [] = Inr [Node_init 0 0, short_node1]"
    by (simp add: rewire_def initial_state_def short_fields)
  have "check_goal short_planner
          (initial_state short_planner\<lparr>node_list := [Node_init 0 0, short_node1]\<rparr>) short_node1
        = Some (Inr (initial_state short_planner\<lparr>node_list := [Node_init 0 0, short_node1],
             path := Some [(3 / 2, 0), (1, 0), (0, 0)], cBest := Fin (3 / 2)\<rparr>))"
    using short_near1
  proof (rule check_goalI)
    show "get_final_course short_planner
            (node_list (initial_state short_planner\<lparr>node_list := [Node_init 0 0, short_node1]\<rparr>))
            (length (node_list (initial_state short_planner
                       \<lparr>node_list := [Node_init 0 0, short_node1]\<rparr>)) - 1)
          = Some (Inr [(3 / 2, 0), (1, 0), (0, 0)])"
      using short_course1 by simp
    show "get_path_len [(3 / 2, 0), (1, 0), (0, 0)] = 3 / 2" by (rule short_len1)
    show "pathLen (initial_state short_planner\<lparr>node_list := [Node_init 0 0, short_node1]\<rparr>)
            = PosInf"
      by (simp add: initial_state_def)
  qed
  then show "check_goal short_planner
          (initial_state short_planner\<lparr>node_list := [Node_init 0 0, short_node1]\<rparr>) short_node1
        = Some (Inr short_state1)"
    by (simp add: initial_state_def short_state1_def)
qed

lemma short_choose2:
  "choose_parent short_planner [Node_init 0 0, short_node1] short_steered2 [0, Suc 0]
     = Inr short_node2"
proof -
  have "choose_parent short_planner [Node_init 0 0, short_node1] short_steered2 [0, Suc 0]
     = Inr (short_steered2\<lparr>cost := 2, parent := Some 0\<rparr>)"
  proof (rule choose_parentI [where dList = "[Fin 2, Fin 2]" and j = 0])
    show "[0, Suc 0] \<noteq> []" by simp
    show "parent_costs short_planner [Node_init 0 0, short_node1] short_steered2 [0, Suc 0]
              = Inr [Fin 2, Fin 2]"
      by (simp add: Node_init_def short_node1_def short_steered2_def)
    show "py_min (hd [Fin 2, Fin 2]) (tl [Fin 2, Fin 2]) = Fin 2" by simp
    show "list_index [Fin 2, Fin 2] (Fin 2) = 0" by simp
    show "[0, Suc 0] ! 0 = 0" by simp
  qed
  then show ?thesis by (simp add: short_steered2_def short_node2_def)
qed

lemma short_extend2:
  "extend_tree short_planner [Node_init 0 0, short_node1] (9 / 8, 0)
     = Inr (Some (short_node2, [0, Suc 0]))"
proof (rule extend_treeI [where nind = "Suc 0" and steered = short_steered2])
  show "get_nearest_list_index [Node_init 0 0, short_node1] (9 / 8, 0) = Inr (Suc 0)"
    by (simp add: get_nearest_list_index_def Node_init_def short_node1_def power2_eq_square)
  show "get_new_node short_planner
          (atan2 (snd (9 / 8, 0) - node_y ([Node_init 0 0, short_node1] ! Suc 0))
                 (fst (9 / 8, 0) - node_x ([Node_init 0 0, short_node1] ! Suc 0)))
          (Suc 0) ([Node_init 0 0, short_node1] ! Suc 0) = short_steered2"
    by (simp add: get_new_node_def atan2_right short_fields short_node1_def short_steered2_def)
  show "collision_check short_steered2 (obstacle_list short_planner)"
    by (simp add: short_fields)
  show "\<And>theta d. check_collision_extend short_planner ([Node_init 0 0, short_node1] ! Suc 0)
                     theta d = Inr True"
    by simp
  have r: "(4::real) \<le> (near_radius (Suc (Suc 0)))\<^sup>2" "(1::real) \<le> (near_radius (Suc (Suc 0)))\<^sup>2"
    using near_radius_2 by linarith+
  show "find_near_nodes [Node_init 0 0, short_node1] short_steered2 = Inr [0, Suc 0]"
    using r by (simp add: find_near_nodes_def Node_init_def short_node1_def short_steered2_def)
  show "choose_parent short_planner [Node_init 0 0, short_node1] short_steered2 [0, Suc 0]
          = Inr short_node2"
    by (rule short_choose2)
qed

lemma short_rewire2:
  "rewire short_planner [Node_init 0 0, short_node1, short_node2] short_node2 [0, Suc 0]
     = Inr [Node_init 0 0, short_node1, short_node2]"
  by (simp add: rewire_def Node_init_def short_node1_def short_node2_def)

lemma short_course2:
  "get_final_course short_planner [Node_init 0 0, short_node1, short_node2]
       (length [Node_init 0 0, short_node1, short_node2] - 1)
     = Some (Inr [(3 / 2, 0), (2, 0), (0, 0)])"
  by (simp add: get_final_course_def final_course_loop.simps short_fields Node_init_def
        short_node1_def short_node2_def)

lemma short_len2: "get_path_len [(3 / 2, 0), (2, 0), (0, 0)] = 5 / 2"
  by (simp add: get_path_len_def sqrt_quarter)

lemma short_near2: "is_near_goal short_planner short_node2"
  by (simp add: is_near_goal_def line_cost_def short_fields Node_init_def short_node2_def
        sqrt_quarter)

lemma short_iteration2:
  "iteration short_planner (3 / 2) (3 / 4, 0) ((1, c01), (0, c11))
     short_state1 (short_draws (Suc 0)) = Some (Inr short_state2)"
proof (rule iterationI [where rnd = "(9 / 8, 0)" and newNode = short_node2
          and nearInds = "[0, Suc 0]" and nodes = "[Node_init 0 0, short_node1, short_node2]"])
  have ball: "sample_unit_ball (short_draws (Suc 0)) = Inr (1 / 2, 0)"
    by (simp add: sample_unit_ball_def short_draws_def)
  show "informed_sample short_planner (cBest short_state1) (3 / 2) (3 / 4, 0)
                  ((1, c01), (0, c11)) (short_draws (Suc 0)) = Inr (9 / 8, 0)"
    by (simp add: informed_sample_def ball Let_def short_state1_def)
  show "extend_tree short_planner (node_list short_state1) (9 / 8, 0)
          = Inr (Some (short_node2, [0, Suc 0]))"
    using short_extend2 by (simp add: short_state1_def)
  show "rewire short_planner (node_list short_state1 @ [short_node2]) short_node2 [0, Suc 0]
          = Inr [Node_init 0 0, short_node1, short_node2]"
    using short_rewire2 by (simp add: short_state1_def)
  have "check_goal short_planner
          (short_state1\<lparr>node_list := [Node_init 0 0, short_node1, short_node2]\<rparr>) short_node2
        = Some (Inr (short_state1\<lparr>node_list := [Node_init 0 0, short_node1, short_node2],
             path := Some [(3 / 2, 0), (2, 0), (0, 0)], cBest := Fin (5 / 2)\<rparr>))"
    using short_near2
  proof (rule check_goalI)
    show "get_final_course short_planner
            (node_list (short_state1\<lparr>node_list := [Node_init 0 0, short_node1, short_node2]\<rparr>))
            (length (node_list (short_state1
                       \<lparr>node_list := [Node_init 0 0, short_node1, short_node2]\<rparr>)) - 1)
          = Some (Inr [(3 / 2, 0), (2, 0), (0, 0)])"
      using short_course2 by simp
    show "get_path_len [(3 / 2, 0), (2, 0), (0, 0)] = 5 / 2" by (rule short_len2)
    show "pathLen (short_state1\<lparr>node_list := [Node_init 0 0, short_node1, short_node2]\<rparr>)
            = PosInf"
      by (simp add: short_state1_def)
  qed
  then show "check_goal short_planner
          (short_state1\<lparr>node_list := [Node_init 0 0, short_node1, short_node2]\<rparr>) short_node2
        = Some (Inr short_state2)"
    by (simp add: short_state1_def short_state2_def)
qed

lemma short_setup:
  "search_run short_planner c2 rng iters =
     search_loop short_planner (3 / 2) (3 / 4, 0) ((1, fst c2), (0, snd c2))
       (map rng [0..<iters]) (initial_state short_planner)"
  by (simp add: search_run_def short_cMin short_xCenter short_fields Node_init_def)

lemma short_run1: "search_run short_planner c2 short_draws 1 = Some (Inr short_state1)"
  by (simp add: short_setup short_iteration1)

lemma short_run2: "search_run short_planner c2 short_draws 2 = Some (Inr short_state2)"
proof -
  have two: "[0..<2] = [0, Suc 0]" by (simp add: upt_rec)
  show ?thesis
    by (simp add: short_setup two short_iteration1 short_iteration2)
qed

lemma short_search:
  "informed_rrt_star_search short_planner c2 short_draws
     = Some (Inr (Some [(3 / 2, 0), (2, 0), (0, 0)]))"
  by (simp add: informed_rrt_star_search_def short_fields short_run2 short_state2_def)

lemma short_reachable: "reachable short_planner [Node_init 0 0, short_node1]"
proof -
  have init: "reachable short_planner [Node_init 0 0]"
    using reach_init [of short_planner] by (simp add: short_fields)
  have rw: "rewire_loop short_planner short_node1 (Suc (length [Node_init 0 0])) (take 0 [])
              ([Node_init 0 0] @ [short_node1]) = Inr [Node_init 0 0, short_node1]"
    by simp
  from init short_extend1 rw show ?thesis by (rule reach_rewire)
qed

subsection \<open>The run that rewires a node with a child\<close>

lemma long_fields:
  "start long_planner = Node_init 0 0"
  "goal long_planner = Node_init 100 100"
  "expand_dis long_planner = 20"
  "goal_sample_rate long_planner = 10"
  "obstacle_list long_planner = []"
  "max_iter long_planner = 4"
  "min_rand long_planner = 0"
  "max_rand long_planner = 100"
  by (simp_all add: long_planner_def planner_def)

lemma long_free [simp]: "check_collision_extend long_planner nearNode theta d = Inr True"
  by (simp add: check_collision_extend_no_obstacles long_fields)

lemma long_sample:
  "informed_sample long_planner (cBest (long_state nodes)) cMin xCenter C (long_draw ux uy)
     = Inr (100 * ux, 100 * uy)"
  by (simp add: informed_sample_def sample_free_space_def long_state_def long_draw_def
        long_fields uniform_def)

lemma long_far:
  assumes "400 \<le> (node_x n - 100)\<^sup>2 + (node_y n - 100)\<^sup>2"
  shows "check_goal long_planner st n = Some (Inr st)"
proof -
  have "\<not> is_near_goal long_planner n"
    using sqrt_not_less_20 [OF assms]
    by (simp add: is_near_goal_def line_cost_def long_fields Node_init_def)
  then show ?thesis by (rule check_goal_far)
qed

lemma long_state_update: "(long_state nodes)\<lparr>node_list := nodes'\<rparr> = long_state nodes'"
  by (simp add: long_state_def)

lemma long_iterationI:
  assumes "extend_tree long_planner nodes (100 * ux, 100 * uy) = Inr (Some (newNode, nearInds))"
    and "rewire long_planner (nodes @ [newNode]) newNode nearInds = Inr nodes'"
    and "400 \<le> (node_x newNode - 100)\<^sup>2 + (node_y newNode - 100)\<^sup>2"
  shows "iteration long_planner cMin xCenter C (long_state nodes) (long_draw ux uy)
           = Some (Inr (long_state nodes'))"
proof (rule iterationI)
  show "informed_sample long_planner (cBest (long_state nodes)) cMin xCenter C (long_draw ux uy)
          = Inr (100 * ux, 100 * uy)"
    by (rule long_sample)
  show "extend_tree long_planner (node_list (long_state nodes)) (100 * ux, 100 * uy)
          = Inr (Some (newNode, nearInds))"
    using assms(1) by (simp add: long_state_def)
  show "rewire long_planner (node_list (long_state nodes) @ [newNode]) newNode nearInds
          = Inr nodes'"
    using assms(2) by (simp add: long_state_def)
  show "check_goal long_planner ((long_state nodes)\<lparr>node_list := nodes'\<rparr>) newNode
          = Some (Inr (long_state nodes'))"
    using long_far [OF assms(3)] by (simp add: long_state_update)
qed

lemma long_extend1:
  "extend_tree long_planner [Node_init 0 0] (1, 0) = Inr (Some (long_node1, []))"
proof (rule extend_treeI [where nind = 0 and steered = long_node1])
  show "get_nearest_list_index [Node_init 0 0] (1, 0) = Inr 0"
    by (simp add: get_nearest_list_index_def)
  show "get_new_node long_planner
          (atan2 (snd (1, 0) - node_y ([Node_init 0 0] ! 0))
                 (fst (1, 0) - node_x ([Node_init 0 0] ! 0)))
          0 ([Node_init 0 0] ! 0) = long_node1"
    by (simp add: get_new_node_def atan2_right long_fields Node_init_def long_node1_def)
  show "collision_check long_node1 (obstacle_list long_planner)"
    by (simp add: long_fields)
  show "\<And>theta d. check_collision_extend long_planner ([Node_init 0 0] ! 0) theta d = Inr True"
    by simp
  show "find_near_nodes [Node_init 0 0] long_node1 = Inr []"
    by (simp add: find_near_nodes_def near_radius_1 Node_init_def long_node1_def)
  show "choose_parent long_planner [Node_init 0 0] long_node1 [] = Inr long_node1"
    by (simp add: choose_parent_def)
qed

lemma long_iteration1:
  "iteration long_planner cMin xCenter C (long_state [Node_init 0 0]) (long_draw (1 / 100) 0)
     = Some (Inr (long_state long_tree1))"
proof (rule long_iterationI [where newNode = long_node1 and nearInds = "[]"])
  show "extend_tree long_planner [Node_init 0 0] (100 * (1 / 100), 100 * 0)
          = Inr (Some (long_node1, []))"
    using long_extend1 by simp
  show "rewire long_planner ([Node_init 0 0] @ [long_node1]) long_node1 [] = Inr long_tree1"
    by (simp add: rewire_def long_tree1_def)
  show "400 \<le> (node_x long_node1 - 100)\<^sup>2 + (node_y long_node1 - 100)\<^sup>2"
    by (simp add: long_node1_def)
qed

lemma long_choose2:
  "choose_parent long_planner long_tree1 long_node2 [1] = Inr long_node2"
proof -
  have "choose_parent long_planner long_tree1 long_node2 [1]
          = Inr (long_node2\<lparr>cost := 40, parent := Some 1\<rparr>)"
  proof (rule choose_parentI [where dList = "[Fin 40]" and j = 0])
    show "[1::nat] \<noteq> []" by simp
    show "parent_costs long_planner long_tree1 long_node2 [1] = Inr [Fin 40]"
      by (simp add: long_tree1_def long_node1_def long_node2_def sqrt_400)
    show "py_min (hd [Fin 40]) (tl [Fin 40]) = Fin 40" by simp
    show "list_index [Fin 40] (Fin 40) = 0" by simp
    show "[1::nat] ! 0 = 1" by simp
  qed
  then show ?thesis by (simp add: long_node2_def)
qed

lemma long_extend2:
  "extend_tree long_planner long_tree1 (23, 4) = Inr (Some (long_node2, [1]))"
proof (rule extend_treeI [where nind = 1 and steered = long_node2])
  show "get_nearest_list_index long_tree1 (23, 4) = Inr 1"
    by (simp add: get_nearest_list_index_def long_tree1_def Node_init_def long_node1_def)
  show "get_new_node long_planner
          (atan2 (snd (23, 4) - node_y (long_tree1 ! 1)) (fst (23, 4) - node_x (long_tree1 ! 1)))
          1 (long_tree1 ! 1) = long_node2"
    by (simp add: get_new_node_def cos_atan2 sin_atan2 sqrt_25 long_fields long_tree1_def
          long_node1_def long_node2_def)
  show "collision_check long_node2 (obstacle_list long_planner)"
    by (simp add: long_fields)
  show "\<And>theta d. check_collision_extend long_planner (long_tree1 ! 1) theta d = Inr True"
    by simp
  have r: "\<not> (1280::real) \<le> (near_radius (Suc (Suc 0)))\<^sup>2"
          "(400::real) \<le> (near_radius (Suc (Suc 0)))\<^sup>2"
    using near_radius_2 near_radius_2_upper by linarith+
  show "find_near_nodes long_tree1 long_node2 = Inr [1]"
    using r by (simp add: find_near_nodes_def long_tree1_def Node_init_def long_node1_def
          long_node2_def)
  show "choose_parent long_planner long_tree1 long_node2 [1] = Inr long_node2"
    by (rule long_choose2)
qed

lemma long_iteration2:
  "iteration long_planner cMin xCenter C (long_state long_tree1) (long_draw (23 / 100) (1 / 25))
     = Some (Inr (long_state long_tree2))"
proof (rule long_iterationI [where newNode = long_node2 and nearInds = "[1]"])
  show "extend_tree long_planner long_tree1 (100 * (23 / 100), 100 * (1 / 25))
          = Inr (Some (long_node2, [1]))"
    using long_extend2 by simp
  show "rewire long_planner (long_tree1 @ [long_node2]) long_node2 [1] = Inr long_tree2"
    by (simp add: rewire_def long_tree1_def long_tree2_def long_node1_def long_node2_def
          sqrt_400)
  show "400 \<le> (node_x long_node2 - 100)\<^sup>2 + (node_y long_node2 - 100)\<^sup>2"
    by (simp add: long_node2_def)
qed

lemma long_choose3:
  "choose_parent long_planner long_tree2 long_node3 [2] = Inr long_node3"
proof -
  have "choose_parent long_planner long_tree2 long_node3 [2]
          = Inr (long_node3\<lparr>cost := 60, parent := Some 2\<rparr>)"
  proof (rule choose_parentI [where dList = "[Fin 60]" and j = 0])
    show "[2::nat] \<noteq> []" by simp
    show "parent_costs long_planner long_tree2 long_node3 [2] = Inr [Fin 60]"
      by (simp add: long_tree2_def long_node2_def long_node3_def sqrt_400)
    show "py_min (hd [Fin 60]) (tl [Fin 60]) = Fin 60" by simp
    show "list_index [Fin 60] (Fin 60) = 0" by simp
    show "[2::nat] ! 0 = 2" by simp
  qed
  then show ?thesis by (simp add: long_node3_def)
qed

lemma long_extend3:
  "extend_tree long_planner long_tree2 (33, 16) = Inr (Some (long_node3, [2]))"
proof (rule extend_treeI [where nind = 2 and steered = long_node3])
  show "get_nearest_list_index long_tree2 (33, 16) = Inr 2"
    by (simp add: get_nearest_list_index_def long_tree2_def Node_init_def long_node1_def
          long_node2_def)
  show "get_new_node long_planner
          (atan2 (snd (33, 16) - node_y (long_tree2 ! 2)) (fst (33, 16) - node_x (long_tree2 ! 2)))
          2 (long_tree2 ! 2) = long_node3"
    by (simp add: get_new_node_def atan2_right long_fields long_tree2_def
          long_node2_def long_node3_def)
  show "collision_check long_node3 (obstacle_list long_planner)"
    by (simp add: long_fields)
  show "\<And>theta d. check_collision_extend long_planner (long_tree2 ! 2) theta d = Inr True"
    by simp
  have r: "\<not> (2960::real) \<le> (near_radius (Suc (Suc (Suc 0))))\<^sup>2"
          "\<not> (1280::real) \<le> (near_radius (Suc (Suc (Suc 0))))\<^sup>2"
          "(400::real) \<le> (near_radius (Suc (Suc (Suc 0))))\<^sup>2"
    using near_radius_3 by linarith+
  show "find_near_nodes long_tree2 long_node3 = Inr [2]"
    using r by (simp add: find_near_nodes_def long_tree2_def Node_init_def long_node1_def
          long_node2_def long_node3_def)
  show "choose_parent long_planner long_tree2 long_node3 [2] = Inr long_node3"
    by (rule long_choose3)
qed

lemma long_iteration3:
  "iteration long_planner cMin xCenter C (long_state long_tree2)
     (long_draw (33 / 100) (4 / 25)) = Some (Inr (long_state long_tree3))"
proof (rule long_iterationI [where newNode = long_node3 and nearInds = "[2]"])
  show "extend_tree long_planner long_tree2 (100 * (33 / 100), 100 * (4 / 25))
          = Inr (Some (long_node3, [2]))"
    using long_extend3 by simp
  show "rewire long_planner (long_tree2 @ [long_node3]) long_node3 [2] = Inr long_tree3"
    by (simp add: rewire_def long_tree2_def long_tree3_def long_node2_def long_node3_def
          sqrt_400)
  show "400 \<le> (node_x long_node3 - 100)\<^sup>2 + (node_y long_node3 - 100)\<^sup>2"
    by (simp add: long_node3_def)
qed

lemma long_costs4:
  "parent_costs long_planner long_tree3 long_node4 [0, 1, 2]
     = Inr [Fin 20, Fin (20 + sqrt 160), Fin (40 + sqrt 272)]"
  by (simp add: long_tree3_def Node_init_def long_node1_def long_node2_def long_node4_def
        sqrt_400)

lemma long_choose4:
  "choose_parent long_planner long_tree3 long_node4 [0, 1, 2] = Inr long_node4"
proof -
  have less: "\<not> 40 + sqrt 272 < 20"
    using real_sqrt_ge_zero [of 272] by linarith
  have "choose_parent long_planner long_tree3 long_node4 [0, 1, 2]
          = Inr (long_node4\<lparr>cost := 20, parent := Some 0\<rparr>)"
  proof (rule choose_parentI [where j = 0, OF _ long_costs4])
    show "[0, 1, 2::nat] \<noteq> []" by simp
    show "py_min (hd [Fin 20, Fin (20 + sqrt 160), Fin (40 + sqrt 272)])
            (tl [Fin 20, Fin (20 + sqrt 160), Fin (40 + sqrt 272)]) = Fin 20"
      using less by simp
    show "list_index [Fin 20, Fin (20 + sqrt 160), Fin (40 + sqrt 272)] (Fin 20) = 0" by simp
    show "[0, 1, 2::nat] ! 0 = 0" by simp
  qed
  then show ?thesis by (simp add: long_node4_def)
qed

lemma long_extend4:
  "extend_tree long_planner long_tree3 (4, 3) = Inr (Some (long_node4, [0, 1, 2]))"
proof (rule extend_treeI [where nind = 0 and steered = long_node4])
  show "get_nearest_list_index long_tree3 (4, 3) = Inr 0"
    by (simp add: get_nearest_list_index_def long_tree3_def Node_init_def long_node1_def
          long_node2_def long_node3_def)
  show "get_new_node long_planner
          (atan2 (snd (4, 3) - node_y (long_tree3 ! 0)) (fst (4, 3) - node_x (long_tree3 ! 0)))
          0 (long_tree3 ! 0) = long_node4"
    by (simp add: get_new_node_def cos_atan2 sin_atan2 sqrt_25 long_fields long_tree3_def
          Node_init_def long_node4_def)
  show "collision_check long_node4 (obstacle_list long_planner)"
    by (simp add: long_fields)
  show "\<And>theta d. check_collision_extend long_planner (long_tree3 ! 0) theta d = Inr True"
    by simp
  have r: "(400::real) \<le> (near_radius (Suc (Suc (Suc (Suc 0)))))\<^sup>2"
          "(160::real) \<le> (near_radius (Suc (Suc (Suc (Suc 0)))))\<^sup>2"
          "(272::real) \<le> (near_radius (Suc (Suc (Suc (Suc 0)))))\<^sup>2"
          "\<not> (1312::real) \<le> (near_radius (Suc (Suc (Suc (Suc 0)))))\<^sup>2"
    using near_radius_4 by linarith+
  show "find_near_nodes long_tree3 long_node4 = Inr [0, 1, 2]"
    using r by (simp add: find_near_nodes_def long_tree3_def Node_init_def long_node1_def
          long_node2_def long_node3_def long_node4_def)
  show "choose_parent long_planner long_tree3 long_node4 [0, 1, 2] = Inr long_node4"
    by (rule long_choose4)
qed

lemma long_rewire4:
  "rewire long_planner (long_tree3 @ [long_node4]) long_node4 [0, 1, 2] = Inr long_tree4"
proof -
  have less: "20 + sqrt 272 < 40" using sqrt_272_less by linarith
  show ?thesis
    using less
    by (simp add: rewire_def long_tree3_def long_tree4_def Node_init_def long_node1_def
          long_node2_def long_node3_def long_node4_def long_rewired2_def sqrt_400)
qed

lemma long_iteration4:
  "iteration long_planner cMin xCenter C (long_state long_tree3)
     (long_draw (1 / 25) (3 / 100)) = Some (Inr (long_state long_tree4))"
proof (rule long_iterationI [where newNode = long_node4 and nearInds = "[0, 1, 2]"])
  show "extend_tree long_planner long_tree3 (100 * (1 / 25), 100 * (3 / 100))
          = Inr (Some (long_node4, [0, 1, 2]))"
    using long_extend4 by simp
  show "rewire long_planner (long_tree3 @ [long_node4]) long_node4 [0, 1, 2] = Inr long_tree4"
    by (rule long_rewire4)
  show "400 \<le> (node_x long_node4 - 100)\<^sup>2 + (node_y long_node4 - 100)\<^sup>2"
    by (simp add: long_node4_def)
qed

lemma long_draws_list:
  "map long_draws [0..<4] =
     [long_draw (1 / 100) 0, long_draw (23 / 100) (1 / 25),
      long_draw (33 / 100) (4 / 25), long_draw (1 / 25) (3 / 100)]"
proof -
  have "[0..<4] = [0, 1, 2, 3]" by (simp add: upt_rec)
  then show ?thesis by (simp add: long_draws_def)
qed

lemma long_run: "search_run long_planner c2 long_draws 4 = Some (Inr (long_state long_tree4))"
proof -
  have "start_point long_planner \<noteq> goal_point long_planner"
    by (simp add: long_planner_def planner_points)
  then have nz: "cMin_of long_planner \<noteq> 0" by (simp add: cMin_zero_iff)
  have init: "initial_state long_planner = long_state [Node_init 0 0]"
    by (simp add: initial_state_def long_state_def long_fields)
  show ?thesis
    using nz
    by (simp add: search_run_def Let_def long_draws_list init long_iteration1 long_iteration2
          long_iteration3 long_iteration4)
qed

lemma long_planner_eq: "planner (0, 0) (100, 100) [] (0, 100) 20 10 4 = long_planner"
  by (simp add: long_planner_def)

lemma long_reachable4: "reachable long_planner long_tree4"
  using search_run_reachable [OF long_run [of "(0, 1)"]] by (simp add: long_state_def)

lemma long_rewire_single:
  "rewire_loop long_planner long_node4 5 [2] (long_tree3 @ [long_node4]) = Inr long_tree4"
proof -
  have less: "20 + sqrt 272 < 40" using sqrt_272_less by linarith
  show ?thesis
    using less
    by (simp add: long_tree3_def long_tree4_def Node_init_def long_node1_def
          long_node2_def long_node3_def long_node4_def long_rewired2_def)
qed

lemma long_tree4_changed: "long_tree4 \<noteq> long_tree3 @ [long_node4]"
  by (simp add: long_tree3_def long_tree4_def long_node2_def long_rewired2_def)

lemma long_tree4_nodes:
  "length long_tree4 = 5"
  "long_tree4 ! 2 = long_rewired2"
  "long_tree4 ! 3 = long_node3"
  by (simp_all add: long_tree4_def)

subsection \<open>The run in which parent selection takes a longer edge\<close>

lemma shortcut_fields:
  "start shortcut_planner = Node_init 0 0"
  "goal shortcut_planner = Node_init 1 (3 / 2)"
  "expand_dis shortcut_planner = 1"
  "goal_sample_rate shortcut_planner = 10"
  "obstacle_list shortcut_planner = []"
  "max_iter shortcut_planner = 2"
  "min_rand shortcut_planner = - 2"
  "max_rand shortcut_planner = 15"
  by (simp_all add: shortcut_planner_def planner_def)

lemma shortcut_free [simp]: "check_collision_extend shortcut_planner nearNode theta d = Inr True"
  by (simp add: check_collision_extend_no_obstacles shortcut_fields)

lemma shortcut_sample:
  "informed_sample shortcut_planner (cBest (long_state nodes)) cMin xCenter C (long_draw ux uy)
     = Inr (- 2 + 17 * ux, - 2 + 17 * uy)"
  by (simp add: informed_sample_def sample_free_space_def long_state_def long_draw_def
        shortcut_fields uniform_def)

lemma atan2_up: "0 < b \<Longrightarrow> atan2 b 0 = pi / 2"
  by (simp add: atan2_def)

lemma shortcut_extend1:
  "extend_tree shortcut_planner [Node_init 0 0] (1, 0) = Inr (Some (shortcut_node1, []))"
proof (rule extend_treeI [where nind = 0 and steered = shortcut_node1])
  show "get_nearest_list_index [Node_init 0 0] (1, 0) = Inr 0"
    by (simp add: get_nearest_list_index_def)
  show "get_new_node shortcut_planner
          (atan2 (snd (1, 0) - node_y ([Node_init 0 0] ! 0))
                 (fst (1, 0) - node_x ([Node_init 0 0] ! 0)))
          0 ([Node_init 0 0] ! 0) = shortcut_node1"
    by (simp add: get_new_node_def atan2_right shortcut_fields Node_init_def shortcut_node1_def)
  show "collision_check shortcut_node1 (obstacle_list shortcut_planner)"
    by (simp add: shortcut_fields)
  show "\<And>theta d. check_collision_extend shortcut_planner ([Node_init 0 0] ! 0) theta d = Inr True"
    by simp
  show "find_near_nodes [Node_init 0 0] shortcut_node1 = Inr []"
    by (simp add: find_near_nodes_def near_radius_1 Node_init_def shortcut_node1_def)
  show "choose_parent shortcut_planner [Node_init 0 0] shortcut_node1 [] = Inr shortcut_node1"
    by (simp add: choose_parent_def)
qed

lemma shortcut_iteration1:
  "iteration shortcut_planner cMin xCenter C (long_state [Node_init 0 0])
     (long_draw (3 / 17) (2 / 17)) = Some (Inr (long_state shortcut_tree1))"
proof (rule iterationI [where rnd = "(1, 0)" and newNode = shortcut_node1 and nearInds = "[]"
          and nodes = shortcut_tree1])
  show "informed_sample shortcut_planner (cBest (long_state [Node_init 0 0])) cMin xCenter C
          (long_draw (3 / 17) (2 / 17)) = Inr (1, 0)"
    by (simp add: shortcut_sample)
  show "extend_tree shortcut_planner (node_list (long_state [Node_init 0 0])) (1, 0)
          = Inr (Some (shortcut_node1, []))"
    using shortcut_extend1 by (simp add: long_state_def)
  show "rewire shortcut_planner (node_list (long_state [Node_init 0 0]) @ [shortcut_node1])
          shortcut_node1 [] = Inr shortcut_tree1"
    by (simp add: rewire_def long_state_def shortcut_tree1_def)
  have "\<not> is_near_goal shortcut_planner shortcut_node1"
    by (simp add: is_near_goal_def line_cost_def shortcut_fields Node_init_def
          shortcut_node1_def sqrt_nine_quarters)
  then show "check_goal shortcut_planner ((long_state [Node_init 0 0])\<lparr>node_list := shortcut_tree1\<rparr>)
          shortcut_node1 = Some (Inr (long_state shortcut_tree1))"
    by (simp add: check_goal_far long_state_update)
qed

lemma sqrt_2_less: "sqrt 2 < 2" "1 < sqrt 2"
proof -
  have "sqrt 2 < sqrt 4" by (simp only: real_sqrt_less_iff)
  moreover have "sqrt 4 = 2" by (rule real_sqrt_unique) simp_all
  ultimately show "sqrt 2 < 2" by simp
  have "sqrt 1 < sqrt 2" by (simp only: real_sqrt_less_iff)
  then show "1 < sqrt 2" by simp
qed

lemma shortcut_costs2:
  "parent_costs shortcut_planner shortcut_tree1 shortcut_steered2 [0, 1]
     = Inr [Fin (sqrt 2), Fin 2]"
  by (simp add: shortcut_tree1_def Node_init_def shortcut_node1_def shortcut_steered2_def)

lemma shortcut_choose2:
  "choose_parent shortcut_planner shortcut_tree1 shortcut_steered2 [0, 1] = Inr shortcut_node2"
proof -
  have less: "\<not> 2 < sqrt 2" using sqrt_2_less by linarith
  have "choose_parent shortcut_planner shortcut_tree1 shortcut_steered2 [0, 1]
          = Inr (shortcut_steered2\<lparr>cost := sqrt 2, parent := Some 0\<rparr>)"
  proof (rule choose_parentI [where j = 0, OF _ shortcut_costs2])
    show "[0, 1::nat] \<noteq> []" by simp
    show "py_min (hd [Fin (sqrt 2), Fin 2]) (tl [Fin (sqrt 2), Fin 2]) = Fin (sqrt 2)"
      using less by simp
    show "list_index [Fin (sqrt 2), Fin 2] (Fin (sqrt 2)) = 0" by simp
    show "[0, 1::nat] ! 0 = 0" by simp
  qed
  then show ?thesis by (simp add: shortcut_steered2_def shortcut_node2_def)
qed

lemma shortcut_extend2:
  "extend_tree shortcut_planner shortcut_tree1 (1, 5) = Inr (Some (shortcut_node2, [0, 1]))"
proof (rule extend_treeI [where nind = 1 and steered = shortcut_steered2])
  show "get_nearest_list_index shortcut_tree1 (1, 5) = Inr 1"
    by (simp add: get_nearest_list_index_def shortcut_tree1_def Node_init_def shortcut_node1_def)
  show "get_new_node shortcut_planner
          (atan2 (snd (1, 5) - node_y (shortcut_tree1 ! 1))
                 (fst (1, 5) - node_x (shortcut_tree1 ! 1)))
          1 (shortcut_tree1 ! 1) = shortcut_steered2"
    by (simp add: get_new_node_def atan2_up shortcut_fields shortcut_tree1_def
          shortcut_node1_def shortcut_steered2_def)
  show "collision_check shortcut_steered2 (obstacle_list shortcut_planner)"
    by (simp add: shortcut_fields)
  show "\<And>theta d. check_collision_extend shortcut_planner (shortcut_tree1 ! 1) theta d = Inr True"
    by simp
  have r: "(2::real) \<le> (near_radius (Suc (Suc 0)))\<^sup>2" "(1::real) \<le> (near_radius (Suc (Suc 0)))\<^sup>2"
    using near_radius_2 by linarith+
  show "find_near_nodes shortcut_tree1 shortcut_steered2 = Inr [0, 1]"
    using r by (simp add: find_near_nodes_def shortcut_tree1_def Node_init_def
          shortcut_node1_def shortcut_steered2_def)
  show "choose_parent shortcut_planner shortcut_tree1 shortcut_steered2 [0, 1]
          = Inr shortcut_node2"
    by (rule shortcut_choose2)
qed

lemma shortcut_rewire2:
  "rewire shortcut_planner (shortcut_tree1 @ [shortcut_node2]) shortcut_node2 [0, 1]
     = Inr shortcut_tree2"
proof -
  have less: "\<not> sqrt 2 + sqrt 2 < 0" "\<not> sqrt 2 + 1 < 1"
    using sqrt_2_less by linarith+
  show ?thesis
    using less
    by (simp add: rewire_def shortcut_tree1_def shortcut_tree2_def Node_init_def
          shortcut_node1_def shortcut_node2_def Let_def)
qed

lemma shortcut_course2:
  "get_final_course shortcut_planner shortcut_tree2 (length shortcut_tree2 - 1)
     = Some (Inr shortcut_path)"
  by (simp add: get_final_course_def final_course_loop.simps shortcut_fields Node_init_def
        shortcut_tree2_def shortcut_node1_def shortcut_node2_def shortcut_path_def)

lemma shortcut_near2: "is_near_goal shortcut_planner shortcut_node2"
  by (simp add: is_near_goal_def line_cost_def shortcut_fields Node_init_def shortcut_node2_def
        sqrt_quarter)

lemma shortcut_iteration2:
  "iteration shortcut_planner cMin xCenter C (long_state shortcut_tree1)
     (long_draw (3 / 17) (7 / 17)) = Some (Inr shortcut_state2)"
proof (rule iterationI [where rnd = "(1, 5)" and newNode = shortcut_node2 and nearInds = "[0, 1]"
          and nodes = shortcut_tree2])
  show "informed_sample shortcut_planner (cBest (long_state shortcut_tree1)) cMin xCenter C
          (long_draw (3 / 17) (7 / 17)) = Inr (1, 5)"
    by (simp add: shortcut_sample)
  show "extend_tree shortcut_planner (node_list (long_state shortcut_tree1)) (1, 5)
          = Inr (Some (shortcut_node2, [0, 1]))"
    using shortcut_extend2 by (simp add: long_state_def)
  show "rewire shortcut_planner (node_list (long_state shortcut_tree1) @ [shortcut_node2])
          shortcut_node2 [0, 1] = Inr shortcut_tree2"
    using shortcut_rewire2 by (simp add: long_state_def)
  have "check_goal shortcut_planner ((long_state shortcut_tree1)\<lparr>node_list := shortcut_tree2\<rparr>)
          shortcut_node2
        = Some (Inr ((long_state shortcut_tree1)\<lparr>node_list := shortcut_tree2,
             path := Some shortcut_path, cBest := Fin (get_path_len shortcut_path)\<rparr>))"
    using shortcut_near2
  proof (rule check_goalI)
    show "get_final_course shortcut_planner
            (node_list ((long_state shortcut_tree1)\<lparr>node_list := shortcut_tree2\<rparr>))
            (length (node_list ((long_state shortcut_tree1)\<lparr>node_list := shortcut_tree2\<rparr>)) - 1)
          = Some (Inr shortcut_path)"
      using shortcut_course2 by simp
    show "get_path_len shortcut_path = get_path_len shortcut_path" by (rule refl)
    show "pathLen ((long_state shortcut_tree1)\<lparr>node_list := shortcut_tree2\<rparr>) = PosInf"
      by (simp add: long_state_def)
  qed
  then show "check_goal shortcut_planner ((long_state shortcut_tree1)\<lparr>node_list := shortcut_tree2\<rparr>)
          shortcut_node2 = Some (Inr shortcut_state2)"
    by (simp add: long_state_def shortcut_state2_def)
qed

lemma shortcut_nz: "cMin_of shortcut_planner \<noteq> 0"
proof -
  have "start_point shortcut_planner \<noteq> goal_point shortcut_planner"
    by (simp add: shortcut_planner_def planner_points)
  then show ?thesis by (simp add: cMin_zero_iff)
qed

lemma shortcut_init: "initial_state shortcut_planner = long_state [Node_init 0 0]"
  by (simp add: initial_state_def long_state_def shortcut_fields)

lemma shortcut_run1:
  "search_run shortcut_planner c2 shortcut_draws 1 = Some (Inr (long_state shortcut_tree1))"
  using shortcut_nz
  by (simp add: search_run_def Let_def shortcut_draws_def shortcut_init shortcut_iteration1)

lemma shortcut_run2:
  "search_run shortcut_planner c2 shortcut_draws 2 = Some (Inr shortcut_state2)"
proof -
  have two: "[0..<2] = [0, Suc 0]" by (simp add: upt_rec)
  show ?thesis
    using shortcut_nz
    by (simp add: search_run_def Let_def two shortcut_draws_def shortcut_init
          shortcut_iteration1 shortcut_iteration2)
qed

lemma shortcut_search:
  "informed_rrt_star_search shortcut_planner c2 shortcut_draws = Some (Inr (Some shortcut_path))"
  by (simp add: informed_rrt_star_search_def shortcut_fields shortcut_run2 shortcut_state2_def)

lemma shortcut_reachable: "reachable shortcut_planner shortcut_tree2"
  using search_run_reachable [OF shortcut_run2 [of "(0, 1)"]] by (simp add: shortcut_state2_def)

lemma shortcut_follows: "follows_parents shortcut_planner shortcut_tree2 shortcut_path"
  using shortcut_near2
  by (simp add: follows_parents_def shortcut_tree2_def shortcut_path_def node_point_def
        Node_init_def shortcut_node1_def shortcut_node2_def start_point_def goal_point_def
        shortcut_fields numeral_3_eq_3)

subsection \<open>The run with a negative step length\<close>

lemma neg_fields:
  "start neg_planner = Node_init 0 0"
  "goal neg_planner = Node_init 50 50"
  "expand_dis neg_planner = - 40"
  "goal_sample_rate neg_planner = 10"
  "obstacle_list neg_planner = []"
  "max_iter neg_planner = 3"
  "min_rand neg_planner = - 100"
  "max_rand neg_planner = 100"
  by (simp_all add: neg_planner_def planner_def)

lemma neg_free [simp]: "check_collision_extend neg_planner nearNode theta d = Inr True"
  by (simp add: check_collision_extend_no_obstacles neg_fields)

lemma neg_sample:
  "informed_sample neg_planner (cBest (long_state nodes)) cMin xCenter C (long_draw ux uy)
     = Inr (- 100 + 200 * ux, - 100 + 200 * uy)"
  by (simp add: informed_sample_def sample_free_space_def long_state_def long_draw_def
        neg_fields uniform_def)

lemma neg_far: "check_goal neg_planner st n = Some (Inr st)"
proof -
  have "0 \<le> line_cost n (goal neg_planner)" by (simp add: line_cost_def)
  then have "\<not> is_near_goal neg_planner n"
    by (simp add: is_near_goal_def neg_fields)
  then show ?thesis by (rule check_goal_far)
qed

lemma neg_iterationI:
  assumes "extend_tree neg_planner nodes (- 100 + 200 * ux, - 100 + 200 * uy)
             = Inr (Some (newNode, nearInds))"
    and "rewire neg_planner (nodes @ [newNode]) newNode nearInds = Inr nodes'"
  shows "iteration neg_planner cMin xCenter C (long_state nodes) (long_draw ux uy)
           = Some (Inr (long_state nodes'))"
proof (rule iterationI)
  show "informed_sample neg_planner (cBest (long_state nodes)) cMin xCenter C (long_draw ux uy)
          = Inr (- 100 + 200 * ux, - 100 + 200 * uy)"
    by (rule neg_sample)
  show "extend_tree neg_planner (node_list (long_state nodes)) (- 100 + 200 * ux, - 100 + 200 * uy)
          = Inr (Some (newNode, nearInds))"
    using assms(1) by (simp add: long_state_def)
  show "rewire neg_planner (node_list (long_state nodes) @ [newNode]) newNode nearInds
          = Inr nodes'"
    using assms(2) by (simp add: long_state_def)
  show "check_goal neg_planner ((long_state nodes)\<lparr>node_list := nodes'\<rparr>) newNode
          = Some (Inr (long_state nodes'))"
    using neg_far by (simp add: long_state_update)
qed

lemma atan2_left: "a < 0 \<Longrightarrow> atan2 0 a = pi"
  by (simp add: atan2_def)

lemma neg_extend1:
  "extend_tree neg_planner [Node_init 0 0] (- 1, 0) = Inr (Some (neg_node1, []))"
proof (rule extend_treeI [where nind = 0 and steered = neg_node1])
  show "get_nearest_list_index [Node_init 0 0] (- 1, 0) = Inr 0"
    by (simp add: get_nearest_list_index_def)
  show "get_new_node neg_planner
          (atan2 (snd (- 1, 0) - node_y ([Node_init 0 0] ! 0))
                 (fst (- 1, 0) - node_x ([Node_init 0 0] ! 0)))
          0 ([Node_init 0 0] ! 0) = neg_node1"
    by (simp add: get_new_node_def atan2_left neg_fields Node_init_def neg_node1_def)
  show "collision_check neg_node1 (obstacle_list neg_planner)"
    by (simp add: neg_fields)
  show "\<And>theta d. check_collision_extend neg_planner ([Node_init 0 0] ! 0) theta d = Inr True"
    by simp
  show "find_near_nodes [Node_init 0 0] neg_node1 = Inr []"
    by (simp add: find_near_nodes_def near_radius_1 Node_init_def neg_node1_def)
  show "choose_parent neg_planner [Node_init 0 0] neg_node1 [] = Inr neg_node1"
    by (simp add: choose_parent_def)
qed

lemma neg_iteration1:
  "iteration neg_planner cMin xCenter C (long_state [Node_init 0 0]) (long_draw (99 / 200) (1 / 2))
     = Some (Inr (long_state neg_tree1))"
proof (rule neg_iterationI [where newNode = neg_node1 and nearInds = "[]"])
  show "extend_tree neg_planner [Node_init 0 0] (- 100 + 200 * (99 / 200), - 100 + 200 * (1 / 2))
          = Inr (Some (neg_node1, []))"
    using neg_extend1 by simp
  show "rewire neg_planner ([Node_init 0 0] @ [neg_node1]) neg_node1 [] = Inr neg_tree1"
    by (simp add: rewire_def neg_tree1_def)
qed

lemma neg_extend2:
  "extend_tree neg_planner neg_tree1 (43, - 4) = Inr (Some (neg_node2, []))"
proof (rule extend_treeI [where nind = 1 and steered = neg_node2])
  show "get_nearest_list_index neg_tree1 (43, - 4) = Inr 1"
    by (simp add: get_nearest_list_index_def neg_tree1_def Node_init_def neg_node1_def)
  show "get_new_node neg_planner
          (atan2 (snd (43, - 4) - node_y (neg_tree1 ! 1)) (fst (43, - 4) - node_x (neg_tree1 ! 1)))
          1 (neg_tree1 ! 1) = neg_node2"
    by (simp add: get_new_node_def cos_atan2 sin_atan2 sqrt_25 neg_fields neg_tree1_def
          neg_node1_def neg_node2_def)
  show "collision_check neg_node2 (obstacle_list neg_planner)"
    by (simp add: neg_fields)
  show "\<And>theta d. check_collision_extend neg_planner (neg_tree1 ! 1) theta d = Inr True"
    by simp
  have r: "\<not> (1280::real) \<le> (near_radius (Suc (Suc 0)))\<^sup>2"
          "\<not> (1600::real) \<le> (near_radius (Suc (Suc 0)))\<^sup>2"
    using near_radius_2_upper by linarith+
  show "find_near_nodes neg_tree1 neg_node2 = Inr []"
    using r by (simp add: find_near_nodes_def neg_tree1_def Node_init_def neg_node1_def
          neg_node2_def)
  show "choose_parent neg_planner neg_tree1 neg_node2 [] = Inr neg_node2"
    by (simp add: choose_parent_def)
qed

lemma neg_iteration2:
  "iteration neg_planner cMin xCenter C (long_state neg_tree1) (long_draw (143 / 200) (12 / 25))
     = Some (Inr (long_state neg_tree2))"
proof (rule neg_iterationI [where newNode = neg_node2 and nearInds = "[]"])
  show "extend_tree neg_planner neg_tree1 (- 100 + 200 * (143 / 200), - 100 + 200 * (12 / 25))
          = Inr (Some (neg_node2, []))"
    using neg_extend2 by simp
  show "rewire neg_planner (neg_tree1 @ [neg_node2]) neg_node2 [] = Inr neg_tree2"
    by (simp add: rewire_def neg_tree1_def neg_tree2_def)
qed

lemma sqrt_128: "0 \<le> sqrt 128" "sqrt 128 < 12"
proof -
  show "0 \<le> sqrt 128" by simp
  have "sqrt 128 < sqrt 144" by (simp only: real_sqrt_less_iff)
  moreover have "sqrt 144 = 12" by (rule real_sqrt_unique) simp_all
  ultimately show "sqrt 128 < 12" by simp
qed

lemma sqrt_640: "0 \<le> sqrt 640" "sqrt 640 < 26"
proof -
  show "0 \<le> sqrt 640" by simp
  have "sqrt 640 < sqrt 676" by (simp only: real_sqrt_less_iff)
  moreover have "sqrt 676 = 26" by (rule real_sqrt_unique) simp_all
  ultimately show "sqrt 640 < 26" by simp
qed

lemma neg_costs3:
  "parent_costs neg_planner neg_tree2 neg_steered3 [0, 2]
     = Inr [Fin (sqrt 640), Fin (sqrt 128 - 80)]"
  by (simp add: neg_tree2_def Node_init_def neg_node1_def neg_node2_def neg_steered3_def)

lemma neg_choose3:
  "choose_parent neg_planner neg_tree2 neg_steered3 [0, 2] = Inr neg_node3"
proof -
  have less: "sqrt 128 - 80 < sqrt 640" "sqrt 640 \<noteq> sqrt 128 - 80"
    using sqrt_128 sqrt_640 by linarith+
  have "choose_parent neg_planner neg_tree2 neg_steered3 [0, 2]
          = Inr (neg_steered3\<lparr>cost := sqrt 128 - 80, parent := Some 2\<rparr>)"
  proof (rule choose_parentI [where j = 1, OF _ neg_costs3])
    show "[0, 2::nat] \<noteq> []" by simp
    show "py_min (hd [Fin (sqrt 640), Fin (sqrt 128 - 80)])
            (tl [Fin (sqrt 640), Fin (sqrt 128 - 80)]) = Fin (sqrt 128 - 80)"
      using less by simp
    show "list_index [Fin (sqrt 640), Fin (sqrt 128 - 80)] (Fin (sqrt 128 - 80)) = 1"
      using less by simp
    show "[0, 2::nat] ! 1 = 2" by simp
  qed
  then show ?thesis by (simp add: neg_steered3_def neg_node3_def)
qed

lemma neg_extend3:
  "extend_tree neg_planner neg_tree2 (44, - 3) = Inr (Some (neg_node3, [0, 2]))"
proof (rule extend_treeI [where nind = 1 and steered = neg_steered3])
  show "get_nearest_list_index neg_tree2 (44, - 3) = Inr 1"
    by (simp add: get_nearest_list_index_def neg_tree2_def Node_init_def neg_node1_def
          neg_node2_def)
  show "get_new_node neg_planner
          (atan2 (snd (44, - 3) - node_y (neg_tree2 ! 1)) (fst (44, - 3) - node_x (neg_tree2 ! 1)))
          1 (neg_tree2 ! 1) = neg_steered3"
    by (simp add: get_new_node_def cos_atan2 sin_atan2 sqrt_25 neg_fields neg_tree2_def
          neg_node1_def neg_steered3_def)
  show "collision_check neg_steered3 (obstacle_list neg_planner)"
    by (simp add: neg_fields)
  show "\<And>theta d. check_collision_extend neg_planner (neg_tree2 ! 1) theta d = Inr True"
    by simp
  have r: "(640::real) \<le> (near_radius (Suc (Suc (Suc 0))))\<^sup>2"
          "\<not> (1600::real) \<le> (near_radius (Suc (Suc (Suc 0))))\<^sup>2"
          "(128::real) \<le> (near_radius (Suc (Suc (Suc 0))))\<^sup>2"
    using near_radius_3 by linarith+
  show "find_near_nodes neg_tree2 neg_steered3 = Inr [0, 2]"
    using r by (simp add: find_near_nodes_def neg_tree2_def Node_init_def neg_node1_def
          neg_node2_def neg_steered3_def)
  show "choose_parent neg_planner neg_tree2 neg_steered3 [0, 2] = Inr neg_node3"
    by (rule neg_choose3)
qed

lemma neg_rewire3:
  "rewire neg_planner (neg_tree2 @ [neg_node3]) neg_node3 [0, 2] = Inr neg_tree3"
proof -
  have less: "sqrt 128 - 80 + sqrt 640 < 0" "\<not> sqrt 128 - 80 + sqrt 128 < - 80"
    using sqrt_128 sqrt_640 by linarith+
  show ?thesis
    using less
    by (simp add: rewire_def neg_tree2_def neg_tree3_def Node_init_def neg_node1_def
          neg_node2_def neg_node3_def neg_root_def Let_def numeral_3_eq_3)
qed

lemma neg_iteration3:
  "iteration neg_planner cMin xCenter C (long_state neg_tree2) (long_draw (18 / 25) (97 / 200))
     = Some (Inr (long_state neg_tree3))"
proof (rule neg_iterationI [where newNode = neg_node3 and nearInds = "[0, 2]"])
  show "extend_tree neg_planner neg_tree2 (- 100 + 200 * (18 / 25), - 100 + 200 * (97 / 200))
          = Inr (Some (neg_node3, [0, 2]))"
    using neg_extend3 by simp
  show "rewire neg_planner (neg_tree2 @ [neg_node3]) neg_node3 [0, 2] = Inr neg_tree3"
    by (rule neg_rewire3)
qed

lemma neg_draws_list:
  "map neg_draws [0..<3] =
     [long_draw (99 / 200) (1 / 2), long_draw (143 / 200) (12 / 25),
      long_draw (18 / 25) (97 / 200)]"
proof -
  have "[0..<3] = [0, 1, 2]" by (simp add: upt_rec)
  then show ?thesis by (simp add: neg_draws_def)
qed

lemma neg_run: "search_run neg_planner c2 neg_draws 3 = Some (Inr (long_state neg_tree3))"
proof -
  have "start_point neg_planner \<noteq> goal_point neg_planner"
    by (simp add: neg_planner_def planner_points)
  then have nz: "cMin_of neg_planner \<noteq> 0" by (simp add: cMin_zero_iff)
  have init: "initial_state neg_planner = long_state [Node_init 0 0]"
    by (simp add: initial_state_def long_state_def neg_fields)
  show ?thesis
    using nz
    by (simp add: search_run_def Let_def neg_draws_list init neg_iteration1 neg_iteration2
          neg_iteration3)
qed

lemma neg_no_root: "follow_parents neg_tree3 fuel i = None"
proof (induction fuel arbitrary: i)
  case 0
  have "i = 0 \<or> i = 1 \<or> i = 2 \<or> i = 3 \<or> 4 \<le> i" by arith
  then show ?case
    by (auto simp: neg_tree3_def neg_root_def neg_node1_def neg_node2_def neg_node3_def)
next
  case (Suc fuel)
  have "i = 0 \<or> i = 1 \<or> i = 2 \<or> i = 3 \<or> 4 \<le> i" by arith
  then show ?case
    using Suc.IH
    by (auto simp: neg_tree3_def neg_root_def neg_node1_def neg_node2_def neg_node3_def)
qed

section \<open>The segment collision test\<close>





lemma extend_tests_le: "extend_tests P theta n tmpNode \<le> n"
  by (induction n arbitrary: tmpNode) auto





section \<open>The goal bias\<close>

lemma length_randint_outcomes: "length randint_outcomes = 101"
  by (simp add: randint_outcomes_def)

lemma count_above:
  assumes "0 \<le> g" "g \<le> 100"
  shows "length (filter (\<lambda>k. g < k) randint_outcomes) = nat (100 - g)"
proof -
  have "length (filter (\<lambda>k. g < k) [0..100]) = card ({k. g < k} \<inter> set [0..100])"
    by (simp add: distinct_length_filter Int_commute)
  also have "{k. g < k} \<inter> set [0..100] = {g + 1..100}"
    using assms by auto
  also have "card {g + 1..100} = nat (100 - g)"
    by simp
  finally show ?thesis by (simp add: randint_outcomes_def)
qed

section \<open>The claims\<close>

subsection \<open>C1: the recorded best cost\<close>

text \<open>
  Claim C1, on the code. In the run of \<open>short_planner\<close> on \<open>short_draws\<close> both iterations
  insert a node within the step length of the goal. The first records the path of length
  3/2; the second extracts a path of length 5/2, compares it with \<^verbatim>\<open>pathLen\<close>, which is
  still infinite, and replaces the best path and \<^verbatim>\<open>cBest\<close>: the recorded best cost goes up
  from 3/2 to 5/2.
\<close>

theorem best_cost_increases:
  "search_run short_planner (0, 1) short_draws 1 = Some (Inr short_state1)
   \<and> search_run short_planner (0, 1) short_draws 2 = Some (Inr short_state2)
   \<and> cBest short_state1 = Fin (3 / 2)
   \<and> cBest short_state2 = Fin (5 / 2)
   \<and> pathLen short_state1 = PosInf
   \<and> path short_state2 = Some [(3 / 2, 0), (2, 0), (0, 0)]
   \<and> fless (cBest short_state1) (cBest short_state2)"
proof -
  have "search_run short_planner (0, 1) short_draws 1 = Some (Inr short_state1)"
    by (rule short_run1)
  moreover have "search_run short_planner (0, 1) short_draws 2 = Some (Inr short_state2)"
    by (rule short_run2)
  moreover have "cBest short_state1 = Fin (3 / 2)" "cBest short_state2 = Fin (5 / 2)"
    "pathLen short_state1 = PosInf" "path short_state2 = Some [(3 / 2, 0), (2, 0), (0, 0)]"
    by (simp_all add: short_state1_def short_state2_def)
  moreover have "fless (cBest short_state1) (cBest short_state2)"
    by (simp add: short_state1_def short_state2_def)
  ultimately show ?thesis by (intro conjI)
qed

subsection \<open>C2: the cost of a node and of its parent\<close>

text \<open>
  Claim C2 as stated fails: in the run of \<open>long_planner\<close> on \<open>long_draws\<close> node 3 is the
  child of node 2. After the fourth iteration has rewired node 2 to the cost
  \<open>20 + sqrt 272\<close>, node 3 still has the cost 60 that it got when it was inserted, which is
  not the cost of node 2 plus the distance 20 between them.
\<close>

theorem stale_cost_after_rewire:
  "search_run long_planner (0, 1) long_draws 4 = Some (Inr (long_state long_tree4))
   \<and> node_list (long_state long_tree4) = long_tree4
   \<and> parent (long_tree4 ! 3) = Some 2
   \<and> cost (long_tree4 ! 3) \<noteq> cost (long_tree4 ! 2) + line_cost (long_tree4 ! 3) (long_tree4 ! 2)"
proof -
  have "line_cost long_node3 long_rewired2 = 20"
    by (simp add: line_cost_def long_node3_def long_rewired2_def sqrt_400)
  moreover have "sqrt 272 \<noteq> 20" using sqrt_272_less by simp
  ultimately have "cost long_node3 \<noteq> cost long_rewired2 + line_cost long_node3 long_rewired2"
    by (simp add: long_node3_def long_rewired2_def)
  then show ?thesis
    using long_run [of "(0, 1)"]
    by (simp add: long_state_def long_tree4_nodes long_node3_def)
qed

text \<open>
  Claim C2, amended. For a planner with a positive step length, in every tree of a run
  the cost of every node with a parent is at least the cost of the parent plus the
  distance between the two. It is equal to it for a node when it is inserted, and for a
  near node when a pass of the rewiring loop changes it (the new parent is then the node
  just inserted). The descendants of a rewired node keep their costs.
\<close>

theorem cost_at_least_parent_plus_edge:
  assumes "0 < e"
  shows "(reachable (planner s g obs ra e gsr mi) nodes \<and> i < length nodes
            \<and> parent (nodes ! i) = Some p \<longrightarrow>
          cost (nodes ! p) + line_cost (nodes ! i) (nodes ! p) \<le> cost (nodes ! i))
       \<and> (extend_tree (planner s g obs ra e gsr mi) before rnd = Inr (Some (newNode, nearInds))
            \<longrightarrow>
          (\<exists>q<length before. parent newNode = Some q
             \<and> cost newNode = cost (before ! q) + line_cost newNode (before ! q)))
       \<and> (rewire_loop (planner s g obs ra e gsr mi) inserted n [j] tree = Inr tree'
            \<and> tree' \<noteq> tree \<longrightarrow>
          parent (tree' ! j) = Some (n - 1)
          \<and> cost (tree' ! j) = cost inserted + line_cost (tree' ! j) inserted)"
proof (intro conjI impI)
  have pos: "0 < expand_dis (planner s g obs ra e gsr mi)"
    using assms by (simp add: planner_step)
  {
    assume a: "reachable (planner s g obs ra e gsr mi) nodes \<and> i < length nodes
            \<and> parent (nodes ! i) = Some p"
    then have "tree_inv nodes" using reachable_tree_inv [OF planner_start pos] by blast
    then have "cost_bounded nodes" by (simp add: tree_inv_def)
    with a show "cost (nodes ! p) + line_cost (nodes ! i) (nodes ! p) \<le> cost (nodes ! i)"
      unfolding cost_bounded_def by blast
  }
  {
    assume "extend_tree (planner s g obs ra e gsr mi) before rnd = Inr (Some (newNode, nearInds))"
    from extend_tree_new [OF this pos]
    show "\<exists>q<length before. parent newNode = Some q
             \<and> cost newNode = cost (before ! q) + line_cost newNode (before ! q)"
      by blast
  }
  {
    assume "rewire_loop (planner s g obs ra e gsr mi) inserted n [j] tree = Inr tree'
            \<and> tree' \<noteq> tree"
    then show "parent (tree' ! j) = Some (n - 1)"
      and "cost (tree' ! j) = cost inserted + line_cost (tree' ! j) inserted"
      using rewire_single by blast+
  }
qed

theorem cost_at_least_parent_plus_edge_witness:
  "(0::real) < 20
   \<and> reachable (planner (0, 0) (100, 100) [] (0, 100) 20 10 4) long_tree4
   \<and> (3::nat) < length long_tree4 \<and> parent (long_tree4 ! 3) = Some 2
   \<and> cost (long_tree4 ! 2) + line_cost (long_tree4 ! 3) (long_tree4 ! 2) \<le> cost (long_tree4 ! 3)
   \<and> extend_tree (planner (0, 0) (100, 100) [] (0, 100) 20 10 4) long_tree3 (4, 3)
       = Inr (Some (long_node4, [0, 1, 2]))
   \<and> (\<exists>q<length long_tree3. parent long_node4 = Some q
         \<and> cost long_node4 = cost (long_tree3 ! q) + line_cost long_node4 (long_tree3 ! q))
   \<and> rewire_loop (planner (0, 0) (100, 100) [] (0, 100) 20 10 4) long_node4 5 [2]
        (long_tree3 @ [long_node4]) = Inr long_tree4
   \<and> long_tree4 \<noteq> long_tree3 @ [long_node4]
   \<and> cost (long_tree4 ! 2) = cost long_node4 + line_cost (long_tree4 ! 2) long_node4"
proof -
  have pos: "(0::real) < 20" by simp
  have reach: "reachable (planner (0, 0) (100, 100) [] (0, 100) 20 10 4) long_tree4"
    using long_reachable4 by (simp only: long_planner_eq)
  have i: "(3::nat) < length long_tree4" by (simp add: long_tree4_nodes)
  have par: "parent (long_tree4 ! 3) = Some 2"
    by (simp add: long_tree4_nodes long_node3_def)
  have ext: "extend_tree (planner (0, 0) (100, 100) [] (0, 100) 20 10 4) long_tree3 (4, 3)
       = Inr (Some (long_node4, [0, 1, 2]))"
    using long_extend4 by (simp only: long_planner_eq)
  have rw: "rewire_loop (planner (0, 0) (100, 100) [] (0, 100) 20 10 4) long_node4 5 [2]
        (long_tree3 @ [long_node4]) = Inr long_tree4"
    using long_rewire_single by (simp only: long_planner_eq)
  note inst = cost_at_least_parent_plus_edge [OF pos, where s = "(0, 0)" and g = "(100, 100)"
       and obs = "[]" and ra = "(0, 100)" and gsr = 10 and mi = 4 and nodes = long_tree4
       and i = 3 and p = 2 and before = long_tree3 and rnd = "(4, 3)"
       and newNode = long_node4 and nearInds = "[0, 1, 2]" and inserted = long_node4
       and n = 5 and j = 2
       and tree = "long_tree3 @ [long_node4]" and tree' = long_tree4]
  from inst reach i par
  have c1: "cost (long_tree4 ! 2) + line_cost (long_tree4 ! 3) (long_tree4 ! 2)
              \<le> cost (long_tree4 ! 3)" by blast
  from inst ext
  have c2: "\<exists>q<length long_tree3. parent long_node4 = Some q
         \<and> cost long_node4 = cost (long_tree3 ! q) + line_cost long_node4 (long_tree3 ! q)"
    by blast
  from inst rw long_tree4_changed
  have c3: "cost (long_tree4 ! 2) = cost long_node4 + line_cost (long_tree4 ! 2) long_node4"
    by blast
  from pos reach i par c1 ext c2 rw long_tree4_changed c3 show ?thesis by blast
qed

subsection \<open>C3: parent handles\<close>

text \<open>
  Claim C3 as stated fails: in the same run the fourth iteration rewires node 2 to the
  node it has just inserted, node 4, so node 2 holds a parent handle to a node inserted
  after it.
\<close>

theorem rewired_parent_is_later:
  "search_run long_planner (0, 1) long_draws 4 = Some (Inr (long_state long_tree4))
   \<and> node_list (long_state long_tree4) = long_tree4
   \<and> parent (long_tree4 ! 2) = Some 4
   \<and> \<not> (4::nat) < 2"
  using long_run [of "(0, 1)"]
  by (simp add: long_state_def long_tree4_nodes long_rewired2_def)

text \<open>
  Claim C3, amended. In every tree of a run, every parent handle is the index of a node of
  the tree other than the node itself. The handle that a node gets when it is inserted is
  the index of an earlier node, and so is every index in the near set. A pass of the
  rewiring loop that changes the tree sets the handle of the near node to \<open>n - 1\<close>, the
  index of the node just inserted, which is a later node.
\<close>

theorem parent_handles_in_range:
  "(reachable (planner s g obs ra e gsr mi) nodes \<and> i < length nodes
      \<and> parent (nodes ! i) = Some p \<longrightarrow> p < length nodes \<and> p \<noteq> i)
   \<and> (extend_tree P before rnd = Inr (Some (newNode, nearInds)) \<longrightarrow>
        (\<exists>q<length before. parent newNode = Some q) \<and> (\<forall>k\<in>set nearInds. k < length before))
   \<and> (rewire_loop P inserted n [j] tree = Inr tree' \<and> tree' \<noteq> tree \<longrightarrow>
        parent (tree' ! j) = Some (n - 1))"
proof (intro conjI impI)
  assume a: "reachable (planner s g obs ra e gsr mi) nodes \<and> i < length nodes
      \<and> parent (nodes ! i) = Some p"
  then have "parents_in_range nodes"
    using reachable_parents_in_range [OF planner_start] by blast
  with a show "p < length nodes" and "p \<noteq> i" unfolding parents_in_range_def by blast+
next
  assume "extend_tree P before rnd = Inr (Some (newNode, nearInds))"
  from extend_tree_parent [OF this]
  show "\<exists>q<length before. parent newNode = Some q" and "\<forall>k\<in>set nearInds. k < length before"
    by blast+
next
  assume "rewire_loop P inserted n [j] tree = Inr tree' \<and> tree' \<noteq> tree"
  then show "parent (tree' ! j) = Some (n - 1)" using rewire_single by blast
qed

theorem parent_handles_in_range_witness:
  "reachable (planner (0, 0) (100, 100) [] (0, 100) 20 10 4) long_tree4
   \<and> (2::nat) < length long_tree4 \<and> parent (long_tree4 ! 2) = Some 4
   \<and> (4::nat) < length long_tree4 \<and> (4::nat) \<noteq> 2
   \<and> extend_tree long_planner long_tree3 (4, 3) = Inr (Some (long_node4, [0, 1, 2]))
   \<and> (\<exists>q<length long_tree3. parent long_node4 = Some q)
   \<and> rewire_loop long_planner long_node4 5 [2] (long_tree3 @ [long_node4]) = Inr long_tree4
   \<and> long_tree4 \<noteq> long_tree3 @ [long_node4]
   \<and> parent (long_tree4 ! 2) = Some (5 - 1)"
proof -
  have reach: "reachable (planner (0, 0) (100, 100) [] (0, 100) 20 10 4) long_tree4"
    using long_reachable4 by (simp only: long_planner_eq)
  have i: "(2::nat) < length long_tree4" by (simp add: long_tree4_nodes)
  have par: "parent (long_tree4 ! 2) = Some 4"
    by (simp add: long_tree4_nodes long_rewired2_def)
  note inst = parent_handles_in_range [where s = "(0, 0)" and g = "(100, 100)" and obs = "[]"
       and ra = "(0, 100)" and e = 20 and gsr = 10 and mi = 4 and nodes = long_tree4
       and i = 2 and p = 4 and P = long_planner and before = long_tree3 and rnd = "(4, 3)"
       and newNode = long_node4 and nearInds = "[0, 1, 2]" and inserted = long_node4
       and n = 5 and j = 2
       and tree = "long_tree3 @ [long_node4]" and tree' = long_tree4]
  from inst reach i par have c1: "(4::nat) < length long_tree4 \<and> (4::nat) \<noteq> 2" by blast
  from inst long_extend4 have c2: "\<exists>q<length long_tree3. parent long_node4 = Some q" by blast
  from inst long_rewire_single long_tree4_changed
  have c3: "parent (long_tree4 ! 2) = Some (5 - 1)" by blast
  from reach i par c1 c2 c3 long_extend4 long_rewire_single long_tree4_changed
  show ?thesis by blast
qed

subsection \<open>C4: the parent chain\<close>

text \<open>
  Claim C4 as stated fails: \<^verbatim>\<open>__init__\<close> accepts a negative step length, and in the run of
  \<open>neg_planner\<close> on \<open>neg_draws\<close> the new nodes cost less than the nodes they are steered
  from, so that the third iteration rewires node 0, the root, to the node it has just
  inserted. The parent handles then are 3, 0, 1 and 2: no node is without parent, and
  following parent handles from any node never ends.
\<close>

theorem negative_step_closes_cycle:
  "search_run neg_planner (0, 1) neg_draws 3 = Some (Inr (long_state neg_tree3))
   \<and> node_list (long_state neg_tree3) = neg_tree3
   \<and> map parent neg_tree3 = [Some 3, Some 0, Some 1, Some 2]
   \<and> (\<forall>fuel i. follow_parents neg_tree3 fuel i = None)"
  using neg_run [of "(0, 1)"] neg_no_root
  by (simp add: long_state_def neg_tree3_def neg_root_def neg_node1_def neg_node2_def
        neg_node3_def)

text \<open>
  Claim C4, amended. For a planner with a positive step length, in every tree of a run the
  chain of parent handles from any node reaches node 0 in fewer hops than the tree has
  nodes; node 0 is the only node without parent, so the chain closes no cycle, and the
  loop of \<^verbatim>\<open>get_final_course\<close> from any node terminates with a path.
\<close>

theorem parent_chain_reaches_root:
  assumes "0 < e"
    and "reachable (planner s g obs ra e gsr mi) nodes"
    and "i < length nodes"
  shows "(\<exists>k<length nodes. follow_parents nodes (length nodes) i = Some (0, k))
         \<and> ((parent (nodes ! i) = None) = (i = 0))
         \<and> (\<exists>pth. get_final_course (planner s g obs ra e gsr mi) nodes i = Some (Inr pth))"
proof -
  have pos: "0 < expand_dis (planner s g obs ra e gsr mi)"
    using assms(1) by (simp add: planner_step)
  have inv: "tree_inv nodes"
    using planner_start pos assms(2) by (rule reachable_tree_inv)
  from inv have vp: "valid_parents nodes" by (simp add: tree_inv_def)
  from tree_inv_follow_parents [OF inv assms(3)] valid_parents_root [OF vp assms(3)]
    tree_inv_final_course [OF inv assms(3)]
  show ?thesis by blast
qed

theorem parent_chain_reaches_root_witness:
  "(0::real) < 20
   \<and> reachable (planner (0, 0) (100, 100) [] (0, 100) 20 10 4) long_tree4
   \<and> (3::nat) < length long_tree4
   \<and> follow_parents long_tree4 (length long_tree4) 3 = Some (0, 3)
   \<and> parent (long_tree4 ! 3) \<noteq> None
   \<and> (\<exists>pth. get_final_course (planner (0, 0) (100, 100) [] (0, 100) 20 10 4) long_tree4 3
               = Some (Inr pth))"
proof -
  have pos: "(0::real) < 20" by simp
  have reach: "reachable (planner (0, 0) (100, 100) [] (0, 100) 20 10 4) long_tree4"
    using long_reachable4 by (simp add: long_planner_def)
  have i: "(3::nat) < length long_tree4" by (simp add: long_tree4_def)
  have chain: "follow_parents long_tree4 (length long_tree4) 3 = Some (0, 3)"
    by (simp add: long_tree4_def Node_init_def long_node1_def long_rewired2_def long_node3_def
          long_node4_def eval_nat_numeral)
  from parent_chain_reaches_root [OF pos reach i] chain pos reach i
  show ?thesis by simp
qed

subsection \<open>C5: construction\<close>




subsection \<open>C6: the returned path\<close>

text \<open>
  Claim C6 as stated fails: in the run of \<open>shortcut_planner\<close> on \<open>shortcut_draws\<close> no path
  is recorded in the first iteration, and the path that the search returns, the first
  and only one recorded, has the consecutive points \<open>(1, 1)\<close> and \<open>(0, 0)\<close>, which are
  \<open>sqrt 2\<close> apart with step length 1: parent selection connected the node at \<open>(1, 1)\<close> to
  the start node.
\<close>

theorem first_path_exceeds_step:
  "search_run shortcut_planner (0, 1) shortcut_draws 1 = Some (Inr (long_state shortcut_tree1))
   \<and> path (long_state shortcut_tree1) = None
   \<and> informed_rrt_star_search shortcut_planner (0, 1) shortcut_draws
       = Some (Inr (Some [(1, 3 / 2), (1, 1), (0, 0)]))
   \<and> point_dist (1, 1) (0, 0) = sqrt 2
   \<and> expand_dis shortcut_planner < sqrt 2
   \<and> \<not> steps_within (expand_dis shortcut_planner) [(1, 3 / 2), (1, 1), (0, 0)]"
  using sqrt_2_less shortcut_run1 [of "(0, 1)"] shortcut_search [of "(0, 1)"]
  by (simp add: shortcut_fields point_dist_def long_state_def shortcut_path_def)

text \<open>
  Claim C6, amended. A path that the search returns has at least three points; its first
  point is the goal position, its last point the start position, and its second point,
  the node that reached the goal, is less than one step length from the first. From the
  second point on the path lists a chain of parent handles of a tree of the run: the
  last node of that tree, its parent, and so on to node 0 at the start position. Every
  later pair of consecutive points therefore is a node and its parent, an edge that
  steering, parent selection or rewiring made; it can be longer than the step length.
\<close>

theorem returned_path_follows_parents:
  assumes "informed_rrt_star_search P c2 rng = Some (Inr (Some pth))"
  shows "3 \<le> length pth \<and> hd pth = goal_point P \<and> last pth = start_point P
         \<and> point_dist (pth ! 0) (pth ! 1) < expand_dis P
         \<and> (\<exists>nodes. reachable P nodes \<and> follows_parents P nodes pth)"
proof -
  from assms obtain st where run: "search_run P c2 rng (max_iter P) = Some (Inr st)"
    and pth: "path st = Some pth"
    by (auto simp: informed_rrt_star_search_def split: option.splits sum.splits)
  from search_run_state_inv [OF run] pth have "good_path P pth"
    by (simp add: state_inv_def)
  moreover from search_run_path_inv [OF run] pth
  have "\<exists>nodes. reachable P nodes \<and> follows_parents P nodes pth"
    by (simp add: path_inv_def)
  ultimately show ?thesis by (simp add: good_path_def)
qed

theorem returned_path_follows_parents_witness:
  "informed_rrt_star_search shortcut_planner (0, 1) shortcut_draws
     = Some (Inr (Some shortcut_path))
   \<and> 3 \<le> length shortcut_path
   \<and> hd shortcut_path = goal_point shortcut_planner
   \<and> last shortcut_path = start_point shortcut_planner
   \<and> point_dist (shortcut_path ! 0) (shortcut_path ! 1) < expand_dis shortcut_planner
   \<and> (\<exists>nodes. reachable shortcut_planner nodes \<and> follows_parents shortcut_planner nodes shortcut_path)
   \<and> reachable shortcut_planner shortcut_tree2
   \<and> follows_parents shortcut_planner shortcut_tree2 shortcut_path
   \<and> parent_chain shortcut_tree2 (length shortcut_tree2) (length shortcut_tree2 - 1) = Some [2, 0]"
proof -
  have "parent_chain shortcut_tree2 (length shortcut_tree2) (length shortcut_tree2 - 1)
          = Some [2, 0]"
    by (simp add: shortcut_tree2_def Node_init_def shortcut_node1_def shortcut_node2_def
          numeral_3_eq_3)
  with returned_path_follows_parents [OF shortcut_search [of "(0, 1)"]]
    shortcut_search [of "(0, 1)"] shortcut_reachable shortcut_follows
  show ?thesis by blast
qed

subsection \<open>C7: the near nodes\<close>

text \<open>
  Claim C7, on the code. For the tree \<open>tie_nodes\<close> and the new node \<open>tie_new\<close>, nodes 1 and 2
  are both at squared distance 2 from the new node. \<^verbatim>\<open>find_near_nodes\<close> returns the index
  list \<open>[0, 1, 1]\<close>: node 2 lies within the radius and its index is missing.
\<close>

theorem find_near_nodes_omits_tie:
  "find_near_nodes tie_nodes tie_new = Inr [0, 1, 1]
   \<and> 2 < length tie_nodes
   \<and> line_cost (tie_nodes ! 2) tie_new \<le> near_radius (length tie_nodes)
   \<and> 2 \<notin> set [0, 1, 1::nat]"
proof -
  have len: "length tie_nodes = 3" by (simp add: tie_nodes_def)
  show ?thesis
    using find_near_tie tie_within by (simp add: len)
qed

subsection \<open>C8: the goal bias\<close>

text \<open>
  Claim C8, on the code. Of the 101 equally likely outcomes of \<^verbatim>\<open>random.randint(0, 100)\<close>,
  the sampler of \<open>main_planner\<close> (goal sample rate 10) takes the uniform branch on 90, which
  is the fraction 90/101 and not (100 - 10)/100.
\<close>

theorem goal_bias_outcomes_main:
  "length (filter (uniform_branch main_planner) randint_outcomes) = 90
   \<and> length randint_outcomes = 101
   \<and> real (length (filter (uniform_branch main_planner) randint_outcomes))
         / real (length randint_outcomes)
       \<noteq> (100 - real_of_int (goal_sample_rate main_planner)) / 100"
proof -
  have branch: "uniform_branch main_planner = (\<lambda>k. 10 < k)"
    by (simp add: uniform_branch_def main_planner_def planner_def fun_eq_iff)
  have count: "length (filter (uniform_branch main_planner) randint_outcomes) = 90"
    unfolding branch using count_above [of 10] by simp
  have rate: "goal_sample_rate main_planner = 10"
    by (simp add: main_planner_def planner_def)
  show ?thesis
    by (simp add: count length_randint_outcomes rate)
qed

subsection \<open>C9: the segment collision test\<close>



subsection \<open>C10: the informed sample\<close>



end
